theory Spec2Isabelle
  imports Main "HOL-Library.Char_ord" "HOL-Library.List_Lexorder" "HOL-Library.Multiset"
    "HOL-Library.Sublist"
begin

unbundle bit_operations_syntax

section \<open>Python values shared by both modules\<close>

text \<open>
  Python strings are modelled as \<^typ>\<open>string\<close>; a character is a code point below 256.
  \<open>str(n)\<close> of a Python integer is its decimal representation, with a leading minus sign
  for a negative one; the f-strings of the source that embed an integer call it.
\<close>

definition digit_char :: "nat \<Rightarrow> char" where
  "digit_char d = char_of (48 + d)"

function str_nat :: "nat \<Rightarrow> string" where
  "str_nat n = (if n < 10 then [digit_char n] else str_nat (n div 10) @ [digit_char (n mod 10)])"
  by pat_completeness auto
termination
  by (relation "measure (\<lambda>n. n)") auto

declare str_nat.simps [simp del]

definition str_int :: "int \<Rightarrow> string" where
  "str_int i = (if i < 0 then CHR ''-'' # str_nat (nat (- i)) else str_nat (nat i))"

datatype error =
    AttributeError string
  | FileNotFoundError string
  | PermissionError string
  | IsADirectoryError string
  | RuntimeError string

section \<open>interfaces/openframe.py: the OpenFrame environment\<close>

text \<open>
  The simulation handle \<open>dut\<close> is a store of named signals. A signal holds a resolved
  integer or an unresolved value (\<open>x\<close>/\<open>z\<close>), for which \<open>is_resolvable\<close> is false.
  \<open>cocotb.log\<close> is the list of records emitted so far, \<open>driven\<close> the sequence of
  writes made through \<open>common.drive_hdl\<close>.
\<close>

datatype sigval = Resolved int | Unresolved

datatype level = ERROR | DEBUG

record OpenFrame_env =
  dut :: "string \<rightharpoonup> sigval"
  active_gpios_num :: int
  cocotb_log :: "(level \<times> string) list"
  driven :: "(string \<times> int) list"

definition log_error :: "OpenFrame_env \<Rightarrow> string \<Rightarrow> OpenFrame_env" where
  "log_error env msg = env\<lparr>cocotb_log := cocotb_log env @ [(ERROR, msg)]\<rparr>"

definition log_debug :: "OpenFrame_env \<Rightarrow> string \<Rightarrow> OpenFrame_env" where
  "log_debug env msg = env\<lparr>cocotb_log := cocotb_log env @ [(DEBUG, msg)]\<rparr>"

text \<open>\<open>self.dut._id(name, False)\<close>: the handle of that name, AttributeError when the
  design has no such signal. The handle is represented by the signal's name.\<close>

definition dut_id :: "OpenFrame_env \<Rightarrow> string \<Rightarrow> error + string" where
  "dut_id env name = (case dut env name of None \<Rightarrow> Inl (AttributeError name) | Some _ \<Rightarrow> Inr name)"

text \<open>Modelled from the spec: \<open>common.drive_hdl\<close> is not among the source files. The spec
  has it drive a simulated pin (or its enable signal) through the simulation handle; on the
  one-bit GPIO signals, with the bit range \<open>(0, 0)\<close> that every call here passes, it
  writes the given value to the signal.\<close>

definition drive_hdl :: "OpenFrame_env \<Rightarrow> string \<Rightarrow> int \<Rightarrow> OpenFrame_env" where
  "drive_hdl env hdl data =
     env\<lparr>dut := (dut env)(hdl \<mapsto> Resolved data), driven := driven env @ [(hdl, data)]\<rparr>"

definition gpio_en_name :: "int \<Rightarrow> string" where
  "gpio_en_name gpio_num = ''gpio'' @ str_int gpio_num @ ''_en''"

definition gpio_name :: "int \<Rightarrow> string" where
  "gpio_name gpio_num = ''gpio'' @ str_int gpio_num"

definition gpio_monitor_name :: "int \<Rightarrow> string" where
  "gpio_monitor_name gpio_num = ''gpio'' @ str_int gpio_num @ ''_monitor''"

definition drive_gpio :: "OpenFrame_env \<Rightarrow> int \<Rightarrow> int \<Rightarrow> error + OpenFrame_env" where
  "drive_gpio env gpio_num val =
     (if gpio_num \<ge> active_gpios_num env then
        Inr (log_error env (''[openframe] GPIO '' @ str_int gpio_num @ '' is out of range (max ''
                            @ str_int (active_gpios_num env - 1) @ '')''))
      else
        case dut_id env (gpio_en_name gpio_num) of
          Inl e \<Rightarrow> Inl e
        | Inr en_hdl \<Rightarrow>
            let env1 = drive_hdl env en_hdl 1 in
            (case dut_id env1 (gpio_name gpio_num) of
               Inl e \<Rightarrow> Inl e
             | Inr hdl \<Rightarrow>
                 Inr (log_debug (drive_hdl env1 hdl val)
                        (''[openframe] drive GPIO['' @ str_int gpio_num @ ''] = '' @ str_int val))))"

text \<open>The loop of \<open>drive_gpio_range\<close> over \<open>range(low, high + 1)\<close>; an exception of
  \<open>drive_gpio\<close> ends it.\<close>

fun drive_gpio_loop :: "OpenFrame_env \<Rightarrow> int \<Rightarrow> int \<Rightarrow> int list \<Rightarrow> error + OpenFrame_env" where
  "drive_gpio_loop env low val [] = Inr env"
| "drive_gpio_loop env low val (i # rest) =
     (let bit_value = (drop_bit (nat (i - low)) val) AND 1 in
      case drive_gpio env i bit_value of
        Inl e \<Rightarrow> Inl e
      | Inr env' \<Rightarrow> drive_gpio_loop env' low val rest)"

definition drive_gpio_range :: "OpenFrame_env \<Rightarrow> int \<times> int \<Rightarrow> int \<Rightarrow> error + OpenFrame_env" where
  "drive_gpio_range env gpio_range val =
     (case gpio_range of (high, low) \<Rightarrow> drive_gpio_loop env low val [low..high])"

definition release_gpio :: "OpenFrame_env \<Rightarrow> int \<Rightarrow> error + OpenFrame_env" where
  "release_gpio env gpio_num =
     (if gpio_num \<ge> active_gpios_num env then
        Inr (log_error env (''[openframe] GPIO '' @ str_int gpio_num @ '' is out of range''))
      else
        case dut_id env (gpio_en_name gpio_num) of
          Inl e \<Rightarrow> Inl e
        | Inr en_hdl \<Rightarrow>
            Inr (log_debug (drive_hdl env en_hdl 0)
                   (''[openframe] release GPIO['' @ str_int gpio_num @ '']'')))"

definition monitor_gpio :: "OpenFrame_env \<Rightarrow> int \<Rightarrow> error + (int \<times> OpenFrame_env)" where
  "monitor_gpio env gpio_num =
     (if gpio_num \<ge> active_gpios_num env then
        Inr (0, log_error env (''[openframe] GPIO '' @ str_int gpio_num @ '' is out of range''))
      else
        case dut_id env (gpio_monitor_name gpio_num) of
          Inl e \<Rightarrow> Inl e
        | Inr hdl \<Rightarrow>
            (case dut env hdl of
               Some (Resolved v) \<Rightarrow> Inr (v, env)
             | _ \<Rightarrow> Inr (0, env)))"

section \<open>scripts/verify\_cocotb/RunTest.py: strings and regular expressions\<close>

text \<open>
  Whitespace as \<open>str.strip\<close>, \<open>str.rstrip\<close> and the class \<open>\s\<close> of \<open>re\<close> see it, on
  code points below 256: tab to carriage return, the four separators 0x1C to 0x1F, the
  space, NEL (0x85) and the no-break space (0xA0).
\<close>

definition py_isspace :: "char \<Rightarrow> bool" where
  "py_isspace c =
     (let n = (of_char c :: nat) in
      (9 \<le> n \<and> n \<le> 13) \<or> (28 \<le> n \<and> n \<le> 32) \<or> n = 133 \<or> n = 160)"

definition rstrip :: "string \<Rightarrow> string" where
  "rstrip s = rev (dropWhile py_isspace (rev s))"

definition strip :: "string \<Rightarrow> string" where
  "strip s = rstrip (dropWhile py_isspace s)"

fun startswith :: "string \<Rightarrow> string \<Rightarrow> bool" where
  "startswith s [] = True"
| "startswith [] (p # ps) = False"
| "startswith (c # cs) (p # ps) = (c = p \<and> startswith cs ps)"

text \<open>
  The fragment of \<open>re\<close> that the patterns of the source use. A character class is a
  literal character, the dot (anything but a newline), \<open>\s\<close>, \<open>\d\<close> or a range
  \<open>[a-b]\<close>; \<open>*\<close> and \<open>+\<close> occur on classes only. \<open>Eol\<close> is \<open>$\<close>: the end of the
  string, or the position before a newline that ends it.
\<close>

datatype cls = Chr char | Dot | Space | Digit | Range char char

datatype re =
    Atom cls
  | Star cls
  | Plus cls
  | Lit string
  | Seq re re
  | Alt re re
  | Eol

fun cls_match :: "cls \<Rightarrow> char \<Rightarrow> bool" where
  "cls_match (Chr c) x = (x = c)"
| "cls_match Dot x = (x \<noteq> CHR 0x0A)"
| "cls_match Space x = py_isspace x"
| "cls_match Digit x = ((48::nat) \<le> of_char x \<and> (of_char x :: nat) \<le> 57)"
| "cls_match (Range a b) x = ((of_char a :: nat) \<le> of_char x \<and> (of_char x :: nat) \<le> of_char b)"

text \<open>
  \<open>rmatch r s\<close> lists what is left of \<open>s\<close> after each way of matching \<open>r\<close> at its
  start, in the order in which the backtracking matcher of \<open>re\<close> tries them: greedy
  repetitions give up one character at a time, the left alternative comes first. The head
  of the list is the match that \<open>re\<close> reports.
\<close>

fun rmatch :: "re \<Rightarrow> string \<Rightarrow> string list" where
  "rmatch (Atom c) s = (case s of [] \<Rightarrow> [] | x # xs \<Rightarrow> if cls_match c x then [xs] else [])"
| "rmatch (Star c) s =
     map (\<lambda>k. drop k s) (rev [0 ..< Suc (length (takeWhile (cls_match c) s))])"
| "rmatch (Plus c) s =
     map (\<lambda>k. drop k s) (rev [1 ..< Suc (length (takeWhile (cls_match c) s))])"
| "rmatch (Lit l) s = (if startswith s l then [drop (length l) s] else [])"
| "rmatch (Seq r1 r2) s = concat (map (rmatch r2) (rmatch r1 s))"
| "rmatch (Alt r1 r2) s = rmatch r1 s @ rmatch r2 s"
| "rmatch Eol s = (if s = [] \<or> s = [CHR 0x0A] then [s] else [])"

text \<open>A compiled pattern: anchored at the start of the string by \<open>^\<close>, or free.\<close>

datatype pattern = AtStart re | Anywhere re

fun search_from :: "re \<Rightarrow> string \<Rightarrow> bool" where
  "search_from r [] = (rmatch r [] \<noteq> [])"
| "search_from r (c # cs) = (rmatch r (c # cs) \<noteq> [] \<or> search_from r cs)"

fun re_search :: "pattern \<Rightarrow> string \<Rightarrow> bool" where
  "re_search (AtStart r) s = (rmatch r s \<noteq> [])"
| "re_search (Anywhere r) s = search_from r s"

text \<open>
  \<open>pattern.sub("", s)\<close>: every leftmost match is removed. Where the pattern matches the
  empty string only, or not at all, the character is kept and the scan moves on by one.
\<close>

function re_sub_empty :: "re \<Rightarrow> string \<Rightarrow> string" where
  "re_sub_empty r [] = []"
| "re_sub_empty r (c # cs) =
     (case rmatch r (c # cs) of
        [] \<Rightarrow> c # re_sub_empty r cs
      | rest # _ \<Rightarrow>
          if length rest \<le> length cs then re_sub_empty r rest else c # re_sub_empty r cs)"
  by pat_completeness auto
termination
  by (relation "measure (\<lambda>(r, s). length s)") auto

section \<open>RunTest.run\_command\_write\_to\_file\<close>

definition noise_patterns :: "pattern list" where
  "noise_patterns =
     [AtStart (Seq (Lit ''-v'') (Seq (Plus Space) (Lit ''/''))),
      Anywhere (Lit ''docker.io/''),
      Anywhere (Lit (''What'' @ [CHR 0x27] @ ''s next:'')),
      Anywhere (Lit ''docker scout''),
      Anywhere (Lit ''View a summary of image''),
      Anywhere (Seq (Lit ''platform'') (Seq (Star Dot) (Lit ''does not match''))),
      AtStart (Seq (Star Space) Eol),
      Anywhere (Lit ''DeprecationWarning''),
      Anywhere (Lit ''RuntimeWarning''),
      AtStart (Seq (Plus (Chr (CHR ''*''))) Eol),
      AtStart (Seq (Lit ''**'') (Atom Space)),
      AtStart (Seq (Plus Space) (Lit ''**'')),
      Anywhere (Lit ''cocotb.scheduler.add''),
      Anywhere (Seq (Lit ''/usr/local/lib/python'')
                 (Seq (Star Dot) (Seq (Lit ''.py:'') (Seq (Plus Digit) (Lit '':''))))),
      AtStart (Seq (Plus Space) (Seq (Lit ''cocotb.'') (Alt (Lit ''scheduler'') (Lit ''log'')))),
      Anywhere (Seq (Lit ''===WARNING==='') (Seq (Star Dot) (Lit ''sky130''))),
      AtStart (Lit ''VCD info:''),
      AtStart (Seq (Plus Space) (Lit ''self.'')),
      AtStart (Lit ''/opt/homebrew/''),
      Anywhere (Lit ''gpi_embed.cpp''),
      Anywhere (Lit ''GpiCommon.cpp''),
      Anywhere (Lit ''in gpi_print_registered''),
      Anywhere (Lit ''in set_program_name_in_venv''),
      Anywhere (Lit ''VPI registered''),
      Anywhere (Lit ''pytest not found'')]"

definition is_noise :: "string \<Rightarrow> bool" where
  "is_noise clean_line = list_ex (\<lambda>p. re_search p clean_line) noise_patterns"

text \<open>\<open>ansi_escape\<close> is \<open>\x1B[@-_][0-?]*[ -/]*[@-~]\<close>.\<close>

definition ansi_escape :: re where
  "ansi_escape =
     Seq (Atom (Chr (CHR 0x1B)))
       (Seq (Atom (Range (CHR ''@'') (CHR ''_'')))
         (Seq (Star (Range (CHR ''0'') (CHR ''?'')))
           (Seq (Star (Range (CHR '' '') (CHR ''/''))) (Atom (Range (CHR ''@'') (CHR ''~''))))))"

definition clean :: "string \<Rightarrow> string" where
  "clean line = rstrip (re_sub_empty ansi_escape line)"

text \<open>
  The state of the runner while it drains the child's output: the line held back by the
  deduplication (\<open>None\<close> when nothing is held), the lines printed to the console so far,
  and the strings written to the log file so far.
\<close>

record runner =
  buffered_line :: "string option"
  console :: "string list"
  log_file :: "string list"

definition is_progressive_duplicate :: "string \<Rightarrow> string option \<Rightarrow> bool" where
  "is_progressive_duplicate line1 line2 =
     (case line2 of
        None \<Rightarrow> False
      | Some l2 \<Rightarrow>
          if line1 = [] \<or> l2 = [] then False
          else
            (case (if length line1 < length l2 then (line1, l2) else (l2, line1)) of
               (shorter, longer) \<Rightarrow>
                 startswith longer shorter \<and> length longer > length shorter + 2))"

definition flush_buffer :: "runner \<Rightarrow> runner" where
  "flush_buffer r =
     (case buffered_line r of
        None \<Rightarrow> r
      | Some b \<Rightarrow> r\<lparr>buffered_line := None, console := console r @ [b]\<rparr>)"

text \<open>The body of the read loop for one line \<open>out\<close> of the child's merged output, already
  decoded. \<open>has_file\<close> says whether a log file was given.\<close>

definition handle_line :: "bool \<Rightarrow> bool \<Rightarrow> runner \<Rightarrow> string \<Rightarrow> runner" where
  "handle_line has_file quiet r out =
     (if out = [] then r
      else
        let clean_line = clean out;
            r1 = (if has_file \<and> clean_line \<noteq> []
                  then r\<lparr>log_file := log_file r @ [clean_line @ [CHR 0x0A]]\<rparr> else r)
        in
          if \<not> quiet \<and> clean_line \<noteq> [] then
            if \<not> is_noise clean_line then
              if is_progressive_duplicate clean_line (buffered_line r1) then
                (if length clean_line > length (case buffered_line r1 of None \<Rightarrow> [] | Some b \<Rightarrow> b)
                 then r1\<lparr>buffered_line := Some clean_line\<rparr> else r1)
              else (flush_buffer r1)\<lparr>buffered_line := Some clean_line\<rparr>
            else r1
          else r1)"

text \<open>
  The child process is what it prints, line by line and already decoded, and its exit
  code: the read loop ends when the child has exited and its output is drained. An
  interruption or another exception while draining is not part of this model. The
  environment expansion of the command, \<open>os.path.expandvars\<close>, is a parameter. The
  result is the return code with the final state of the runner: its console and its log
  file, as the list of the strings written to it.
\<close>

record process =
  stdout_lines :: "string list"
  returncode :: int

definition log_header :: "(string \<Rightarrow> string) \<Rightarrow> string \<Rightarrow> string list" where
  "log_header expandvars cmd =
     [''command:'' @ [CHR 0x0A],
      expandvars cmd @ [CHR 0x0A, CHR 0x0A],
      replicate 60 (CHR ''-'') @ [CHR 0x0A]]"

definition run_command_write_to_file ::
  "(string \<Rightarrow> string) \<Rightarrow> process \<Rightarrow> string \<Rightarrow> string option \<Rightarrow> bool \<Rightarrow> int \<times> runner" where
  "run_command_write_to_file expandvars proc cmd file quiet =
     (let r0 = \<lparr>buffered_line = None, console = [],
                log_file = (case file of None \<Rightarrow> [] | Some _ \<Rightarrow> log_header expandvars cmd)\<rparr>;
          r1 = foldl (handle_line (file \<noteq> None) quiet) r0 (stdout_lines proc)
      in (returncode proc, flush_buffer r1))"

section \<open>RunTest: the netlist hash cache\<close>

text \<open>
  The file system says, for a path, what the two calls of \<open>open\<close> in the source meet
  there. At a path there is a regular file, with its content and whether the process may
  read it and may write it, or a directory, or nothing. Where there is nothing, a file
  can be created (the path is not in the map), or it cannot: the directory that would hold
  it does not exist (\<open>NoParent\<close>) or may not be written (\<open>ParentReadOnly\<close>).
\<close>

datatype entry = File string bool bool | Directory | NoParent | ParentReadOnly

type_synonym filesys = "string \<rightharpoonup> entry"

text \<open>\<open>open(path, "r")\<close> or \<open>open(path, "rb")\<close> followed by reading the whole file.\<close>

definition open_read :: "filesys \<Rightarrow> string \<Rightarrow> error + string" where
  "open_read files path =
     (case files path of
        None \<Rightarrow> Inl (FileNotFoundError path)
      | Some NoParent \<Rightarrow> Inl (FileNotFoundError path)
      | Some ParentReadOnly \<Rightarrow> Inl (FileNotFoundError path)
      | Some Directory \<Rightarrow> Inl (IsADirectoryError path)
      | Some (File f readable writable) \<Rightarrow> if readable then Inr f else Inl (PermissionError path))"

text \<open>\<open>open(path, "w")\<close> followed by one \<open>write\<close>: the file is created or truncated, and
  holds what was written. An existing file keeps its permissions.\<close>

definition open_write :: "filesys \<Rightarrow> string \<Rightarrow> string \<Rightarrow> error + filesys" where
  "open_write files path data =
     (case files path of
        None \<Rightarrow> Inr (files(path \<mapsto> File data True True))
      | Some NoParent \<Rightarrow> Inl (FileNotFoundError path)
      | Some ParentReadOnly \<Rightarrow> Inl (PermissionError path)
      | Some Directory \<Rightarrow> Inl (IsADirectoryError path)
      | Some (File f readable writable) \<Rightarrow>
          if writable then Inr (files(path \<mapsto> File data readable writable))
          else Inl (PermissionError path))"

text \<open>
  The digest of \<open>hashlib\<close> is a parameter \<open>hexdigest\<close>, the function from all the bytes
  fed to the hash object to the hexadecimal digest; the hash object itself is the bytes fed
  so far. \<open>while chunk := f.read(8192): hash_func.update(chunk)\<close> is:
\<close>

function read_chunks :: "string \<Rightarrow> string \<Rightarrow> string" where
  "read_chunks hash_func f =
     (let chunk = take 8192 f in
      if chunk = [] then hash_func else read_chunks (hash_func @ chunk) (drop 8192 f))"
  by pat_completeness auto
termination
  by (relation "measure (\<lambda>(h, f). length f)") auto

declare read_chunks.simps [simp del]

text \<open>The loop over the sorted paths. Its two \<open>except\<close> clauses turn a
  FileNotFoundError and a PermissionError into the returned string; any other exception
  of \<open>open\<close> leaves the function.\<close>

fun hash_files ::
  "(string \<Rightarrow> string) \<Rightarrow> filesys \<Rightarrow> string \<Rightarrow> string list \<Rightarrow> error + string" where
  "hash_files hexdigest fs hash_func [] = Inr (hexdigest hash_func)"
| "hash_files hexdigest fs hash_func (file_path # rest) =
     (case open_read fs file_path of
        Inr f \<Rightarrow> hash_files hexdigest fs (read_chunks hash_func f) rest
      | Inl (FileNotFoundError filename) \<Rightarrow> Inr (''File not found: '' @ filename)
      | Inl (PermissionError filename) \<Rightarrow> Inr (''Permission denied: '' @ filename)
      | Inl e \<Rightarrow> Inl e)"

definition calculate_netlist_hash ::
  "(string \<Rightarrow> string) \<Rightarrow> filesys \<Rightarrow> string list \<Rightarrow> error + string" where
  "calculate_netlist_hash hexdigest fs netlist = hash_files hexdigest fs [] (sort netlist)"

text \<open>No \<open>except\<close> clause guards \<open>write_hash\<close>: an exception of the hash computation or
  of \<open>open(self.test.hash_log, "w")\<close> leaves it, and then nothing has been written.\<close>

definition write_hash ::
  "(string \<Rightarrow> string) \<Rightarrow> string \<Rightarrow> filesys \<Rightarrow> string list \<Rightarrow> error + (string \<times> filesys)" where
  "write_hash hexdigest hash_log fs netlist =
     (case calculate_netlist_hash hexdigest fs netlist of
        Inl e \<Rightarrow> Inl e
      | Inr new_hash \<Rightarrow>
          (case open_write fs hash_log new_hash of
             Inl e \<Rightarrow> Inl e
           | Inr fs' \<Rightarrow> Inr (new_hash, fs')))"

text \<open>\<open>old_hash\<close> is a string read from the file, or the integer 0. Only the
  FileNotFoundError of the read is caught.\<close>

datatype pyval = PyStr string | PyInt int

definition is_same_hash ::
  "(string \<Rightarrow> string) \<Rightarrow> string \<Rightarrow> filesys \<Rightarrow> string list \<Rightarrow> error + (bool \<times> filesys)" where
  "is_same_hash hexdigest hash_log fs netlist =
     (case (case open_read fs hash_log of
              Inr f \<Rightarrow> Inr (PyStr (strip f))
            | Inl (FileNotFoundError filename) \<Rightarrow> Inr (PyInt 0)
            | Inl e \<Rightarrow> Inl e) of
        Inl e \<Rightarrow> Inl e
      | Inr old_hash \<Rightarrow>
          (case write_hash hexdigest hash_log fs netlist of
             Inl e \<Rightarrow> Inl e
           | Inr (new_hash, fs') \<Rightarrow> Inr (PyStr new_hash = old_hash, fs')))"

section \<open>RunTest: the compile and run orchestrator\<close>

text \<open>
  \<open>self.test\<close> and \<open>self.args\<close>, with the fields that the two tracks read. The state of
  a run is the file system, the class attribute \<open>COMPILE_LOCK\<close> and the trace of what
  was printed and which simulator commands were started. The include lists, the coverage
  switch and the environment variables that the tracks set up first only shape the command
  strings; they touch none of this state and are left out.
\<close>

record test =
  test_name :: string
  test_sim :: string
  test_compilation_dir :: string
  test_hash_log :: string
  test_netlist :: "string list"

record args =
  args_compile :: bool
  args_compile_only :: bool

datatype event = Print string | IverilogCompile | IverilogRun | VcsCompile | VcsRun

record run_state =
  fs :: filesys
  COMPILE_LOCK :: "string set"
  trace :: "event list"

definition OKCYAN :: string where "OKCYAN = [CHR 0x1B] @ ''[96m''"
definition OKGREEN :: string where "OKGREEN = [CHR 0x1B] @ ''[92m''"
definition FAIL :: string where "FAIL = [CHR 0x1B] @ ''[91m''"
definition ENDC :: string where "ENDC = [CHR 0x1B] @ ''[0m''"

definition isfile :: "filesys \<Rightarrow> string \<Rightarrow> bool" where
  "isfile files path = (case files path of Some (File f readable writable) \<Rightarrow> True | _ \<Rightarrow> False)"

definition print :: "run_state \<Rightarrow> string \<Rightarrow> run_state" where
  "print st msg = st\<lparr>trace := trace st @ [Print msg]\<rparr>"

text \<open>
  The simulator commands run outside the program. \<open>tool\<close> is what such a command does to
  the file system (it may or may not leave the compiled artifact there); starting one is
  recorded in the trace.
\<close>

definition run_tool :: "(event \<Rightarrow> filesys \<Rightarrow> filesys) \<Rightarrow> event \<Rightarrow> run_state \<Rightarrow> run_state" where
  "run_tool tool ev st = st\<lparr>fs := tool ev (fs st), trace := trace st @ [ev]\<rparr>"

definition remove_if_isfile :: "string \<Rightarrow> run_state \<Rightarrow> run_state" where
  "remove_if_isfile path st = (if isfile (fs st) path then st\<lparr>fs := (fs st)(path := None)\<rparr> else st)"

definition iverilog_compile :: "(event \<Rightarrow> filesys \<Rightarrow> filesys) \<Rightarrow> test \<Rightarrow> run_state \<Rightarrow> run_state" where
  "iverilog_compile tool t st =
     run_tool tool IverilogCompile (remove_if_isfile (test_compilation_dir t @ ''/sim.vvp'') st)"

definition vcs_compile :: "(event \<Rightarrow> filesys \<Rightarrow> filesys) \<Rightarrow> test \<Rightarrow> run_state \<Rightarrow> run_state" where
  "vcs_compile tool t st =
     run_tool tool VcsCompile (remove_if_isfile (test_compilation_dir t @ ''/simv'') st)"

text \<open>\<open>self.write_hash(self.test.netlist)\<close> on the state of the run; an exception leaves
  the state as it is.\<close>

definition st_write_hash :: "(string \<Rightarrow> string) \<Rightarrow> test \<Rightarrow> run_state \<Rightarrow> error option \<times> run_state" where
  "st_write_hash hexdigest t st =
     (case write_hash hexdigest (test_hash_log t) (fs st) (test_netlist t) of
        Inl e \<Rightarrow> (Some e, st)
      | Inr (new_hash, fs') \<Rightarrow> (None, st\<lparr>fs := fs'\<rparr>))"

text \<open>What follows the decision in both tracks: the artifact enters the lock, and the
  simulation runs unless \<open>compile_only\<close> is set.\<close>

definition lock_and_run ::
  "(event \<Rightarrow> filesys \<Rightarrow> filesys) \<Rightarrow> args \<Rightarrow> string \<Rightarrow> event \<Rightarrow> run_state \<Rightarrow> error option \<times> run_state" where
  "lock_and_run tool a artifact run_ev st =
     (let st1 = st\<lparr>COMPILE_LOCK := insert artifact (COMPILE_LOCK st)\<rparr> in
      if \<not> args_compile_only a then (None, run_tool tool run_ev st1) else (None, st1))"

definition runTest_iverilog ::
  "(string \<Rightarrow> string) \<Rightarrow> (event \<Rightarrow> filesys \<Rightarrow> filesys) \<Rightarrow> args \<Rightarrow> test \<Rightarrow> run_state
     \<Rightarrow> error option \<times> run_state" where
  "runTest_iverilog hexdigest tool a t st =
     (let artifact = test_compilation_dir t @ ''/sim.vvp'' in
      if test_sim t = ''GL_SDF'' then
        (Some (RuntimeError (FAIL @ ''iverilog can'' @ [CHR 0x27] @ ''t run SDF for test ''
                 @ test_name t @ '' Please use anothor simulator like cvc'' @ ENDC)), st)
      else if \<not> isfile (fs st) artifact then
        (case st_write_hash hexdigest t
                (iverilog_compile tool t
                   (print st (OKCYAN @ ''Compiling as sim.vvp not found'' @ ENDC))) of
           (Some e, st') \<Rightarrow> (Some e, st')
         | (None, st') \<Rightarrow> lock_and_run tool a artifact IverilogRun st')
      else if args_compile a then
        (case st_write_hash hexdigest t
                (iverilog_compile tool t
                   (print st (OKCYAN @ ''Compiling as compile flag is set'' @ ENDC))) of
           (Some e, st') \<Rightarrow> (Some e, st')
         | (None, st') \<Rightarrow> lock_and_run tool a artifact IverilogRun st')
      else
        (case is_same_hash hexdigest (test_hash_log t) (fs st) (test_netlist t) of
           Inl e \<Rightarrow> (Some e, st)
         | Inr (same, fs') \<Rightarrow>
             let st1 = st\<lparr>fs := fs'\<rparr> in
             if \<not> same \<and> artifact \<notin> COMPILE_LOCK st1 then
               lock_and_run tool a artifact IverilogRun
                 (iverilog_compile tool t
                    (print st1 (OKCYAN @ ''Compiling since netlist has changed'' @ ENDC)))
             else
               lock_and_run tool a artifact IverilogRun
                 (if artifact \<notin> COMPILE_LOCK st1
                  then print st1 (OKGREEN @ ''Skipping compilation as netlist has not changed'' @ ENDC)
                  else st1)))"

definition runTest_vcs ::
  "(string \<Rightarrow> string) \<Rightarrow> (event \<Rightarrow> filesys \<Rightarrow> filesys) \<Rightarrow> args \<Rightarrow> test \<Rightarrow> run_state
     \<Rightarrow> error option \<times> run_state" where
  "runTest_vcs hexdigest tool a t st =
     (let artifact = test_compilation_dir t @ ''/simv'' in
      if \<not> isfile (fs st) artifact then
        (case st_write_hash hexdigest t
                (vcs_compile tool t (print st (OKCYAN @ ''Compiling as simv not found'' @ ENDC))) of
           (Some e, st') \<Rightarrow> (Some e, st')
         | (None, st') \<Rightarrow> lock_and_run tool a artifact VcsRun st')
      else if args_compile a then
        (case st_write_hash hexdigest t
                (vcs_compile tool t
                   (print st (OKCYAN @ ''Compiling as compile flag is set'' @ ENDC))) of
           (Some e, st') \<Rightarrow> (Some e, st')
         | (None, st') \<Rightarrow> lock_and_run tool a artifact VcsRun st')
      else
        (case is_same_hash hexdigest (test_hash_log t) (fs st) (test_netlist t) of
           Inl e \<Rightarrow> (Some e, st)
         | Inr (same, fs') \<Rightarrow>
             let st1 = st\<lparr>fs := fs'\<rparr> in
             if \<not> same \<and> artifact \<notin> COMPILE_LOCK st1 then
               lock_and_run tool a artifact VcsRun
                 (vcs_compile tool t
                    (print st1 (OKCYAN @ ''Compiling since netlist has has changed'' @ ENDC)))
             else
               lock_and_run tool a artifact VcsRun
                 (if artifact \<notin> COMPILE_LOCK st1
                  then print st1 (OKCYAN @ ''Skipping compilation as netlist has not changed'' @ ENDC)
                  else st1)))"

text \<open>The compilations started so far, in order.\<close>

fun is_compile :: "event \<Rightarrow> bool" where
  "is_compile IverilogCompile = True"
| "is_compile VcsCompile = True"
| "is_compile _ = False"

definition compilations :: "run_state \<Rightarrow> event list" where
  "compilations st = filter is_compile (trace st)"

section \<open>Auxiliary notions and concrete inputs\<close>

text \<open>A path that can be read, and the bytes that hashing reads from it.\<close>

definition readable :: "filesys \<Rightarrow> string \<Rightarrow> bool" where
  "readable files path = (case files path of Some (File f r w) \<Rightarrow> r | _ \<Rightarrow> False)"

definition content :: "filesys \<Rightarrow> string \<Rightarrow> string" where
  "content files path = (case files path of Some (File f r w) \<Rightarrow> f | _ \<Rightarrow> [])"


text \<open>
  What the console is to show, in the words of the deduplication: two lines are
  progressive when one is a prefix of the other and the longer has more than two
  characters beyond it. The first line is held; a next line that is progressive with the
  held one merges with it, the longer of the two being held on; any other next line sends
  the held line to the console and is held in its place; the line held at the end is
  printed. Only lines that are neither empty nor noise once cleaned take part.
\<close>

definition progressive :: "string \<Rightarrow> string \<Rightarrow> bool" where
  "progressive a b =
     ((prefix a b \<and> length a + 2 < length b) \<or> (prefix b a \<and> length b + 2 < length a))"

fun collapse :: "string list \<Rightarrow> string list" where
  "collapse [] = []"
| "collapse [held] = [held]"
| "collapse (held # next # rest) =
     (if progressive held next
      then collapse ((if length next > length held then next else held) # rest)
      else held # collapse (next # rest))"

definition visible :: "string list \<Rightarrow> string list" where
  "visible lines = filter (\<lambda>c. c \<noteq> [] \<and> \<not> is_noise c) (map clean lines)"

text \<open>A stand-in for the digest function, which keeps every byte it was fed, and a file
  system with two netlist files and nothing else.\<close>

definition toy_hexdigest :: "string \<Rightarrow> string" where
  "toy_hexdigest bytes = ''sha:'' @ bytes"

definition two_files :: filesys where
  "two_files = [''a.v'' \<mapsto> File ''module a;'' True True, ''b.v'' \<mapsto> File ''module b;'' True True]"


text \<open>A test of the RTL simulation with both compiled artifacts on disk and a hash log
  that no longer matches the netlist, arguments that set no flag, simulator commands that
  leave the file system alone, and a state of the run in which both artifacts are locked.\<close>

definition rtl_test :: test where
  "rtl_test = \<lparr>test_name = ''gpio_all_o'', test_sim = ''RTL'', test_compilation_dir = ''sim/compilation'',
                test_hash_log = ''hash.log'', test_netlist = [''b.v'', ''a.v'']\<rparr>"

definition plain_args :: args where
  "plain_args = \<lparr>args_compile = False, args_compile_only = False\<rparr>"

definition compiled_files :: filesys where
  "compiled_files = two_files(''sim/compilation/sim.vvp'' \<mapsto> File ''vvp'' True True,
                              ''sim/compilation/simv'' \<mapsto> File ''simv'' True True,
                              ''hash.log'' \<mapsto> File ''sha:stale'' True True)"

definition no_effect :: "event \<Rightarrow> filesys \<Rightarrow> filesys" where
  "no_effect ev files = files"

definition locked_state :: run_state where
  "locked_state = \<lparr>fs = compiled_files,
                    COMPILE_LOCK = {''sim/compilation/sim.vvp'', ''sim/compilation/simv''},
                    trace = []\<rparr>"

text \<open>A child process that prints the given lines, each ended by a newline, and exits
  with code 0.\<close>

definition child :: "string list \<Rightarrow> process" where
  "child lines = \<lparr>stdout_lines = map (\<lambda>l. l @ [CHR 0x0A]) lines, returncode = 0\<rparr>"

text \<open>
  For a range of pins: the bit of \<open>value\<close> that belongs to pin \<open>i\<close>, whether an active
  pin lacks one of the two signals that driving it looks up, and the record that driving
  pin \<open>i\<close> with a bit leaves in the log.
\<close>

definition pin_bit :: "int \<Rightarrow> int \<Rightarrow> int \<Rightarrow> int" where
  "pin_bit low val i = drop_bit (nat (i - low)) val AND 1"

definition missing_signal :: "OpenFrame_env \<Rightarrow> int \<Rightarrow> bool" where
  "missing_signal env i =
     (i < active_gpios_num env
      \<and> (dut env (gpio_en_name i) = None \<or> dut env (gpio_name i) = None))"

definition drive_record :: "OpenFrame_env \<Rightarrow> int \<Rightarrow> int \<Rightarrow> level \<times> string" where
  "drive_record env i b =
     (if i < active_gpios_num env
      then (DEBUG, ''[openframe] drive GPIO['' @ str_int i @ ''] = '' @ str_int b)
      else (ERROR, ''[openframe] GPIO '' @ str_int i @ '' is out of range (max ''
                     @ str_int (active_gpios_num env - 1) @ '')''))"

text \<open>An OpenFrame environment whose design has the three signals of each pin of
  \<open>pins\<close> and no other, with \<open>n\<close> active pins, an empty log and nothing driven yet.\<close>

definition pins_env :: "int list \<Rightarrow> int \<Rightarrow> OpenFrame_env" where
  "pins_env pins n =
     \<lparr>dut = map_of (concat (map (\<lambda>i. [(gpio_en_name i, Unresolved), (gpio_name i, Unresolved),
                                       (gpio_monitor_name i, Resolved 1)]) pins)),
      active_gpios_num = n, cocotb_log = [], driven = []\<rparr>"

section \<open>OpenFrame: pin access\<close>

subsection \<open>Decimal names of pins\<close>

lemma of_char_digit_char: "d < 10 \<Longrightarrow> (of_char (digit_char d) :: nat) = 48 + d"
proof -
  assume d: "d < 10"
  have "(of_char (digit_char d) :: nat) = (48 + d) mod 256"
    unfolding digit_char_def by (rule of_char_of)
  also have "\<dots> = 48 + d" using d by (intro mod_less) linarith
  finally show ?thesis .
qed

lemma digit_char_inj: "a < 10 \<Longrightarrow> b < 10 \<Longrightarrow> digit_char a = digit_char b \<Longrightarrow> a = b"
proof -
  assume a: "a < 10" and b: "b < 10" and e: "digit_char a = digit_char b"
  have "48 + a = 48 + b"
    using of_char_digit_char[OF a] of_char_digit_char[OF b] e by metis
  then show "a = b" by linarith
qed

lemma str_nat_nonempty: "str_nat n \<noteq> []"
  by (subst str_nat.simps) simp

lemma str_nat_inj: "str_nat n = str_nat m \<Longrightarrow> n = m"
proof (induction n arbitrary: m rule: str_nat.induct)
  case (1 n)
  show ?case
  proof (cases "n < 10")
    case True
    show ?thesis
    proof (cases "m < 10")
      case mT: True
      from "1.prems" True mT have "digit_char n = digit_char m"
        by (simp add: str_nat.simps)
      then show ?thesis using True mT digit_char_inj by blast
    next
      case mF: False
      from "1.prems" True mF have "[digit_char n] = str_nat (m div 10) @ [digit_char (m mod 10)]"
        by (simp add: str_nat.simps[of n] str_nat.simps[of m])
      then have "str_nat (m div 10) = []" by simp
      then show ?thesis using str_nat_nonempty by blast
    qed
  next
    case False
    show ?thesis
    proof (cases "m < 10")
      case mT: True
      from "1.prems" False mT have "str_nat (n div 10) @ [digit_char (n mod 10)] = [digit_char m]"
        by (simp add: str_nat.simps[of n] str_nat.simps[of m])
      then have "str_nat (n div 10) = []" by simp
      then show ?thesis using str_nat_nonempty by blast
    next
      case mF: False
      from "1.prems" False mF
      have "str_nat (n div 10) @ [digit_char (n mod 10)] = str_nat (m div 10) @ [digit_char (m mod 10)]"
        by (simp add: str_nat.simps[of n] str_nat.simps[of m])
      then have a: "str_nat (n div 10) = str_nat (m div 10)"
        and b: "digit_char (n mod 10) = digit_char (m mod 10)" by simp_all
      from "1.IH"[OF False a] have d: "n div 10 = m div 10" .
      from b have "n mod 10 = m mod 10" by (intro digit_char_inj) simp_all
      with d show ?thesis by (metis div_mult_mod_eq)
    qed
  qed
qed

lemma str_nat_digits: "c \<in> set (str_nat n) \<Longrightarrow> \<exists>d<10. c = digit_char d"
proof (induction n rule: str_nat.induct)
  case (1 n)
  show ?case
  proof (cases "n < 10")
    case True
    with "1.prems" show ?thesis by (auto simp: str_nat.simps[of n])
  next
    case False
    with "1.prems" have "c \<in> set (str_nat (n div 10)) \<or> c = digit_char (n mod 10)"
      by (auto simp: str_nat.simps[of n])
    then show ?thesis
    proof
      assume "c \<in> set (str_nat (n div 10))"
      with "1.IH"[OF False] show ?thesis by blast
    next
      assume "c = digit_char (n mod 10)"
      moreover have "n mod 10 < 10" by simp
      ultimately show ?thesis by blast
    qed
  qed
qed

lemma digit_char_not_minus: "d < 10 \<Longrightarrow> digit_char d \<noteq> CHR ''-''"
proof
  assume d: "d < 10" and e: "digit_char d = CHR ''-''"
  have "(of_char (digit_char d) :: nat) = 45" unfolding e by simp
  with of_char_digit_char[OF d] show False by simp
qed

lemma digit_char_not_underscore: "d < 10 \<Longrightarrow> digit_char d \<noteq> CHR ''_''"
proof
  assume d: "d < 10" and e: "digit_char d = CHR ''_''"
  have "(of_char (digit_char d) :: nat) = 95" unfolding e by simp
  with of_char_digit_char[OF d] d show False by simp
qed

lemma str_nat_no_minus: "CHR ''-'' \<notin> set (str_nat n)"
proof
  assume "CHR ''-'' \<in> set (str_nat n)"
  then obtain d where "d < 10" "CHR ''-'' = digit_char d" using str_nat_digits by blast
  then show False using digit_char_not_minus by metis
qed

lemma str_nat_no_underscore: "CHR ''_'' \<notin> set (str_nat n)"
proof
  assume "CHR ''_'' \<in> set (str_nat n)"
  then obtain d where "d < 10" "CHR ''_'' = digit_char d" using str_nat_digits by blast
  then show False using digit_char_not_underscore by metis
qed

lemma str_int_inj: "str_int i = str_int j \<Longrightarrow> i = j"
proof -
  assume e: "str_int i = str_int j"
  have hd_neg: "\<And>k. k < 0 \<Longrightarrow> hd (str_int k) = CHR ''-''" by (simp add: str_int_def)
  have hd_pos: "\<And>k. \<not> k < 0 \<Longrightarrow> hd (str_int k) \<noteq> CHR ''-''"
  proof -
    fix k :: int assume "\<not> k < 0"
    then have "str_int k = str_nat (nat k)" by (simp add: str_int_def)
    moreover have "hd (str_nat (nat k)) \<in> set (str_nat (nat k))" using str_nat_nonempty by simp
    ultimately show "hd (str_int k) \<noteq> CHR ''-''" using str_nat_no_minus by metis
  qed
  show "i = j"
  proof (cases "i < 0")
    case True
    then have "j < 0" using e hd_neg hd_pos by metis
    with True e have "str_nat (nat (- i)) = str_nat (nat (- j))" by (simp add: str_int_def)
    then have "nat (- i) = nat (- j)" by (rule str_nat_inj)
    with True \<open>j < 0\<close> show ?thesis by simp
  next
    case False
    then have "\<not> j < 0" using e hd_neg hd_pos by metis
    with False e have "str_nat (nat i) = str_nat (nat j)" by (simp add: str_int_def)
    then have "nat i = nat j" by (rule str_nat_inj)
    with False \<open>\<not> j < 0\<close> show ?thesis by simp
  qed
qed

lemma str_int_no_underscore: "CHR ''_'' \<notin> set (str_int i)"
  using str_nat_no_underscore by (auto simp: str_int_def)

lemma gpio_name_inj: "gpio_name i = gpio_name j \<Longrightarrow> i = j"
  by (simp add: gpio_name_def str_int_inj)

lemma gpio_en_name_inj: "gpio_en_name i = gpio_en_name j \<Longrightarrow> i = j"
  by (simp add: gpio_en_name_def str_int_inj)

lemma gpio_name_neq_en: "gpio_name i \<noteq> gpio_en_name j"
proof
  assume "gpio_name i = gpio_en_name j"
  then have "str_int i = str_int j @ ''_en''" by (simp add: gpio_name_def gpio_en_name_def)
  then have "CHR ''_'' \<in> set (str_int i)" by simp
  then show False using str_int_no_underscore by blast
qed

subsection \<open>The range check\<close>

text \<open>
  C8. For every \<open>gpio_num\<close> at or above the configured active pin count, \<open>drive_gpio\<close>
  returns normally with one error record added to the log and nothing else changed: no
  signal is written, neither the pin nor its enable. \<open>monitor_gpio\<close> returns 0, again
  with one error record and nothing else changed. Neither raises.
\<close>

theorem out_of_range_gpio_is_logged_noop:
  assumes "gpio_num \<ge> active_gpios_num env"
  shows "(\<exists>msg. drive_gpio env gpio_num val = Inr (env\<lparr>cocotb_log := cocotb_log env @ [(ERROR, msg)]\<rparr>))
       \<and> (\<exists>msg. monitor_gpio env gpio_num = Inr (0, env\<lparr>cocotb_log := cocotb_log env @ [(ERROR, msg)]\<rparr>))"
  unfolding drive_gpio_def monitor_gpio_def log_error_def using assms by auto

theorem out_of_range_gpio_is_logged_noop_witness:
  "active_gpios_num (pins_env [43, 44] 44) \<le> 44
   \<and> drive_gpio (pins_env [43, 44] 44) 44 1 =
       Inr ((pins_env [43, 44] 44)\<lparr>cocotb_log := [(ERROR, ''[openframe] GPIO 44 is out of range (max 43)'')]\<rparr>)
   \<and> monitor_gpio (pins_env [43, 44] 44) 44 =
       Inr (0, (pins_env [43, 44] 44)\<lparr>cocotb_log := [(ERROR, ''[openframe] GPIO 44 is out of range'')]\<rparr>)"
proof -
  have a: "active_gpios_num (pins_env [43, 44] 44) = 44" by (simp add: pins_env_def)
  have h: "active_gpios_num (pins_env [43, 44] 44) \<le> 44" by (simp add: pins_env_def)
  have l: "cocotb_log (pins_env [43, 44] 44) = []" by (simp add: pins_env_def)
  have s: "str_int 44 = ''44''" "str_int (44 - 1) = ''43''" by code_simp+
  from out_of_range_gpio_is_logged_noop[OF h, of 1] h l s show ?thesis
    by (simp add: drive_gpio_def monitor_gpio_def log_error_def a)
qed

text \<open>
  C10. The check has no lower bound. For a negative \<open>gpio_num\<close> (and a pin count that is
  not negative) the guard is not taken in \<open>drive_gpio\<close>, \<open>release_gpio\<close> and
  \<open>monitor_gpio\<close>: the signal names carry the minus sign of the index, and each
  operation either fails with the AttributeError of looking such a name up, or accesses
  the signals of those names; no error record is logged, and what \<open>monitor_gpio\<close>
  returns is read from the signal.
\<close>

theorem negative_gpio_num_passes_range_check:
  assumes "gpio_num < 0" and "0 \<le> active_gpios_num env"
  shows "gpio_en_name gpio_num = ''gpio-'' @ str_nat (nat (- gpio_num)) @ ''_en''
       \<and> gpio_name gpio_num = ''gpio-'' @ str_nat (nat (- gpio_num))
       \<and> gpio_monitor_name gpio_num = ''gpio-'' @ str_nat (nat (- gpio_num)) @ ''_monitor''
       \<and> (case drive_gpio env gpio_num val of
            Inl e \<Rightarrow> e = AttributeError (gpio_en_name gpio_num) \<or> e = AttributeError (gpio_name gpio_num)
          | Inr env' \<Rightarrow>
              driven env' = driven env @ [(gpio_en_name gpio_num, 1), (gpio_name gpio_num, val)]
            \<and> (\<exists>msg. cocotb_log env' = cocotb_log env @ [(DEBUG, msg)]))
       \<and> (case release_gpio env gpio_num of
            Inl e \<Rightarrow> e = AttributeError (gpio_en_name gpio_num)
          | Inr env' \<Rightarrow>
              driven env' = driven env @ [(gpio_en_name gpio_num, 0)]
            \<and> (\<exists>msg. cocotb_log env' = cocotb_log env @ [(DEBUG, msg)]))
       \<and> (case monitor_gpio env gpio_num of
            Inl e \<Rightarrow> e = AttributeError (gpio_monitor_name gpio_num)
          | Inr (v, env') \<Rightarrow>
              env' = env
            \<and> (\<exists>sv. dut env (gpio_monitor_name gpio_num) = Some sv
                    \<and> v = (case sv of Resolved x \<Rightarrow> x | Unresolved \<Rightarrow> 0)))"
proof -
  have g: "\<not> gpio_num \<ge> active_gpios_num env" using assms by simp
  have n: "str_int gpio_num = CHR ''-'' # str_nat (nat (- gpio_num))"
    using assms(1) by (simp add: str_int_def)
  have names: "gpio_en_name gpio_num = ''gpio-'' @ str_nat (nat (- gpio_num)) @ ''_en''
       \<and> gpio_name gpio_num = ''gpio-'' @ str_nat (nat (- gpio_num))
       \<and> gpio_monitor_name gpio_num = ''gpio-'' @ str_nat (nat (- gpio_num)) @ ''_monitor''"
    by (simp add: gpio_en_name_def gpio_name_def gpio_monitor_name_def n)
  have d: "(case drive_gpio env gpio_num val of
            Inl e \<Rightarrow> e = AttributeError (gpio_en_name gpio_num) \<or> e = AttributeError (gpio_name gpio_num)
          | Inr env' \<Rightarrow>
              driven env' = driven env @ [(gpio_en_name gpio_num, 1), (gpio_name gpio_num, val)]
            \<and> (\<exists>msg. cocotb_log env' = cocotb_log env @ [(DEBUG, msg)]))"
    using g by (simp add: drive_gpio_def dut_id_def drive_hdl_def log_debug_def Let_def
                  split: option.splits)
  have r: "(case release_gpio env gpio_num of
            Inl e \<Rightarrow> e = AttributeError (gpio_en_name gpio_num)
          | Inr env' \<Rightarrow>
              driven env' = driven env @ [(gpio_en_name gpio_num, 0)]
            \<and> (\<exists>msg. cocotb_log env' = cocotb_log env @ [(DEBUG, msg)]))"
    using g by (simp add: release_gpio_def dut_id_def drive_hdl_def log_debug_def
                  split: option.splits)
  have m: "(case monitor_gpio env gpio_num of
            Inl e \<Rightarrow> e = AttributeError (gpio_monitor_name gpio_num)
          | Inr (v, env') \<Rightarrow>
              env' = env
            \<and> (\<exists>sv. dut env (gpio_monitor_name gpio_num) = Some sv
                    \<and> v = (case sv of Resolved x \<Rightarrow> x | Unresolved \<Rightarrow> 0)))"
    using g by (simp add: monitor_gpio_def dut_id_def split: option.splits sigval.splits)
  from names d r m show ?thesis by blast
qed

theorem negative_gpio_num_passes_range_check_witness:
  "(- 1 :: int) < 0 \<and> 0 \<le> active_gpios_num (pins_env [- 1] 44)
   \<and> map_sum id driven (drive_gpio (pins_env [- 1] 44) (- 1) 1) = Inr [(''gpio-1_en'', 1), (''gpio-1'', 1)]
   \<and> map_sum id cocotb_log (drive_gpio (pins_env [- 1] 44) (- 1) 1)
       = Inr [(DEBUG, ''[openframe] drive GPIO[-1] = 1'')]
   \<and> map_sum id driven (release_gpio (pins_env [- 1] 44) (- 1)) = Inr [(''gpio-1_en'', 0)]
   \<and> map_sum id fst (monitor_gpio (pins_env [- 1] 44) (- 1)) = Inr 1
   \<and> map_sum id driven (drive_gpio (pins_env [] 44) (- 1) 1) = Inl (AttributeError ''gpio-1_en'')"
proof -
  have h1: "(- 1 :: int) < 0" by simp
  have h2: "0 \<le> active_gpios_num (pins_env [- 1] 44)" by (simp add: pins_env_def)
  note t = negative_gpio_num_passes_range_check[OF h1 h2, of 1]
  have e1: "map_sum id driven (drive_gpio (pins_env [- 1] 44) (- 1) 1) = Inr [(''gpio-1_en'', 1), (''gpio-1'', 1)]"
    by code_simp
  have e2: "map_sum id cocotb_log (drive_gpio (pins_env [- 1] 44) (- 1) 1)
       = Inr [(DEBUG, ''[openframe] drive GPIO[-1] = 1'')]" by code_simp
  have e3: "map_sum id driven (release_gpio (pins_env [- 1] 44) (- 1)) = Inr [(''gpio-1_en'', 0)]"
    by code_simp
  have e4: "map_sum id fst (monitor_gpio (pins_env [- 1] 44) (- 1)) = Inr 1" by code_simp
  have e5: "map_sum id driven (drive_gpio (pins_env [] 44) (- 1) 1) = Inl (AttributeError ''gpio-1_en'')"
    by code_simp
  from t h1 h2 e1 e2 e3 e4 e5 show ?thesis by blast
qed

subsection \<open>Driving a range of pins\<close>

lemma gpio_en_neq_gpio: "gpio_en_name i \<noteq> gpio_name i"
  by (simp add: gpio_en_name_def gpio_name_def)

text \<open>One step of the range loop on a pin that is skipped, or active with both signals.\<close>

lemma drive_gpio_step:
  assumes "\<not> missing_signal env gpio_num"
  shows "\<exists>env'. drive_gpio env gpio_num val = Inr env'
           \<and> active_gpios_num env' = active_gpios_num env
           \<and> dut env' = (if gpio_num < active_gpios_num env
                          then (dut env)(gpio_en_name gpio_num \<mapsto> Resolved 1, gpio_name gpio_num \<mapsto> Resolved val)
                          else dut env)
           \<and> driven env' = driven env @ (if gpio_num < active_gpios_num env
                          then [(gpio_en_name gpio_num, 1), (gpio_name gpio_num, val)] else [])
           \<and> cocotb_log env' = cocotb_log env @ [drive_record env gpio_num val]"
  using assms
  by (auto simp: drive_gpio_def dut_id_def drive_hdl_def log_debug_def log_error_def Let_def
        missing_signal_def drive_record_def
        gpio_en_neq_gpio gpio_en_neq_gpio[symmetric] split: option.splits)

text \<open>One step on an active pin that lacks a signal.\<close>

lemma drive_gpio_missing:
  assumes "missing_signal env gpio_num"
  shows "drive_gpio env gpio_num val
           = Inl (AttributeError (if dut env (gpio_en_name gpio_num) = None
                                  then gpio_en_name gpio_num else gpio_name gpio_num))"
  using assms
  by (auto simp: drive_gpio_def dut_id_def drive_hdl_def Let_def missing_signal_def
        gpio_en_neq_gpio gpio_en_neq_gpio[symmetric] split: option.splits)

lemma drive_gpio_loop_result:
  assumes "find (missing_signal env) pins = None"
  shows "\<exists>env'. drive_gpio_loop env low val pins = Inr env'
           \<and> active_gpios_num env' = active_gpios_num env
           \<and> dom (dut env') = dom (dut env)
           \<and> (\<forall>name. (\<forall>i\<in>set pins. i < active_gpios_num env \<longrightarrow>
                           name \<noteq> gpio_en_name i \<and> name \<noteq> gpio_name i)
                   \<longrightarrow> dut env' name = dut env name)
           \<and> (distinct pins \<longrightarrow> (\<forall>i\<in>set pins. i < active_gpios_num env \<longrightarrow>
                   dut env' (gpio_name i) = Some (Resolved (pin_bit low val i))
                 \<and> dut env' (gpio_en_name i) = Some (Resolved 1)))
           \<and> driven env' = driven env @
                 concat (map (\<lambda>i. [(gpio_en_name i, 1), (gpio_name i, pin_bit low val i)])
                           (filter (\<lambda>i. i < active_gpios_num env) pins))
           \<and> cocotb_log env' = cocotb_log env @ map (\<lambda>i. drive_record env i (pin_bit low val i)) pins"
  using assms
proof (induction pins arbitrary: env)
  case Nil
  then show ?case by simp
next
  case (Cons p pins)
  let ?b = "pin_bit low val p"
  from Cons.prems have nm: "\<not> missing_signal env p"
    and rest: "find (missing_signal env) pins = None"
    by (simp_all split: if_splits)
  from drive_gpio_step[OF nm, of ?b] obtain env1 where
    s1: "drive_gpio env p ?b = Inr env1"
    and a1: "active_gpios_num env1 = active_gpios_num env"
    and d1: "dut env1 = (if p < active_gpios_num env
                          then (dut env)(gpio_en_name p \<mapsto> Resolved 1, gpio_name p \<mapsto> Resolved ?b)
                          else dut env)"
    and w1: "driven env1 = driven env @ (if p < active_gpios_num env
                          then [(gpio_en_name p, 1), (gpio_name p, ?b)] else [])"
    and l1: "cocotb_log env1 = cocotb_log env @ [drive_record env p ?b]"
    by blast
  have dom1: "dom (dut env1) = dom (dut env)"
    using d1 nm by (auto simp: missing_signal_def)
  have ms: "missing_signal env1 = missing_signal env"
  proof
    fix i
    have "dut env1 (gpio_en_name i) = None \<longleftrightarrow> dut env (gpio_en_name i) = None"
      "dut env1 (gpio_name i) = None \<longleftrightarrow> dut env (gpio_name i) = None"
      using dom1 by (metis domIff)+
    then show "missing_signal env1 i = missing_signal env i"
      by (simp add: missing_signal_def a1)
  qed
  have dr: "drive_record env1 = drive_record env"
    by (simp add: drive_record_def a1 fun_eq_iff)
  from rest ms have "find (missing_signal env1) pins = None" by simp
  from Cons.IH[OF this] obtain env' where
    l: "drive_gpio_loop env1 low val pins = Inr env'"
    and a': "active_gpios_num env' = active_gpios_num env1"
    and dom': "dom (dut env') = dom (dut env1)"
    and fr': "\<forall>name. (\<forall>i\<in>set pins. i < active_gpios_num env1 \<longrightarrow>
                           name \<noteq> gpio_en_name i \<and> name \<noteq> gpio_name i)
                   \<longrightarrow> dut env' name = dut env1 name"
    and fin': "distinct pins \<longrightarrow> (\<forall>i\<in>set pins. i < active_gpios_num env1 \<longrightarrow>
                   dut env' (gpio_name i) = Some (Resolved (pin_bit low val i))
                 \<and> dut env' (gpio_en_name i) = Some (Resolved 1))"
    and w': "driven env' = driven env1 @
                 concat (map (\<lambda>i. [(gpio_en_name i, 1), (gpio_name i, pin_bit low val i)])
                           (filter (\<lambda>i. i < active_gpios_num env1) pins))"
    and l': "cocotb_log env' = cocotb_log env1 @ map (\<lambda>i. drive_record env1 i (pin_bit low val i)) pins"
    by blast
  have res: "drive_gpio_loop env low val (p # pins) = Inr env'"
    using s1 l by (simp add: pin_bit_def)
  have frame: "\<forall>name. (\<forall>i\<in>set (p # pins). i < active_gpios_num env \<longrightarrow>
                           name \<noteq> gpio_en_name i \<and> name \<noteq> gpio_name i)
                   \<longrightarrow> dut env' name = dut env name"
    using fr' d1 a1 by auto
  have final: "distinct (p # pins) \<longrightarrow> (\<forall>i\<in>set (p # pins). i < active_gpios_num env \<longrightarrow>
                   dut env' (gpio_name i) = Some (Resolved (pin_bit low val i))
                 \<and> dut env' (gpio_en_name i) = Some (Resolved 1))"
  proof (intro impI ballI)
    fix i assume dist: "distinct (p # pins)" and i: "i \<in> set (p # pins)"
      and act: "i < active_gpios_num env"
    show "dut env' (gpio_name i) = Some (Resolved (pin_bit low val i))
                 \<and> dut env' (gpio_en_name i) = Some (Resolved 1)"
    proof (cases "i = p")
      case True
      have notin: "p \<notin> set pins" using dist by simp
      have n1: "\<forall>j\<in>set pins. gpio_name p \<noteq> gpio_en_name j \<and> gpio_name p \<noteq> gpio_name j"
        using notin gpio_name_inj gpio_name_neq_en by blast
      have n2: "\<forall>j\<in>set pins. gpio_en_name p \<noteq> gpio_en_name j \<and> gpio_en_name p \<noteq> gpio_name j"
        using notin gpio_en_name_inj gpio_name_neq_en by metis
      have "dut env' (gpio_name p) = dut env1 (gpio_name p)" using fr' n1 by blast
      moreover have "dut env' (gpio_en_name p) = dut env1 (gpio_en_name p)" using fr' n2 by blast
      moreover have "dut env1 (gpio_name p) = Some (Resolved ?b)"
        using d1 act True by simp
      moreover have "dut env1 (gpio_en_name p) = Some (Resolved 1)"
        using d1 act True gpio_en_neq_gpio[of p] by simp
      ultimately show ?thesis using True by simp
    next
      case False
      with i have "i \<in> set pins" by simp
      moreover have "distinct pins" using dist by simp
      ultimately show ?thesis using fin' act a1 by simp
    qed
  qed
  have writes: "driven env' = driven env @
                 concat (map (\<lambda>i. [(gpio_en_name i, 1), (gpio_name i, pin_bit low val i)])
                           (filter (\<lambda>i. i < active_gpios_num env) (p # pins)))"
    using w' w1 a1 by simp
  have logs: "cocotb_log env' = cocotb_log env @ map (\<lambda>i. drive_record env i (pin_bit low val i)) (p # pins)"
    using l' l1 dr by simp
  have "dom (dut env') = dom (dut env)" using dom1 dom' by simp
  with res a' a1 frame final writes logs show ?case by simp
qed

lemma drive_gpio_loop_missing:
  assumes "find (missing_signal env) pins = Some j"
  shows "drive_gpio_loop env low val pins
           = Inl (AttributeError (if dut env (gpio_en_name j) = None
                                  then gpio_en_name j else gpio_name j))"
  using assms
proof (induction pins arbitrary: env)
  case Nil
  then show ?case by simp
next
  case (Cons p pins)
  show ?case
  proof (cases "missing_signal env p")
    case True
    with Cons.prems have "p = j" by simp
    with True drive_gpio_missing[of env p "pin_bit low val p"] show ?thesis
      by (simp add: pin_bit_def)
  next
    case False
    with Cons.prems have rest: "find (missing_signal env) pins = Some j" by simp
    from drive_gpio_step[OF False, of "pin_bit low val p"] obtain env1 where
      s1: "drive_gpio env p (pin_bit low val p) = Inr env1"
      and a1: "active_gpios_num env1 = active_gpios_num env"
      and d1: "dut env1 = (if p < active_gpios_num env
                            then (dut env)(gpio_en_name p \<mapsto> Resolved 1,
                                           gpio_name p \<mapsto> Resolved (pin_bit low val p))
                            else dut env)"
      by blast
    have dom1: "dom (dut env1) = dom (dut env)"
      using d1 False by (auto simp: missing_signal_def)
    have none: "dut env1 name = None \<longleftrightarrow> dut env name = None" for name
      using dom1 by (metis domIff)
    have ms: "missing_signal env1 = missing_signal env"
      by (simp add: missing_signal_def a1 none fun_eq_iff)
    from rest ms have "find (missing_signal env1) pins = Some j" by simp
    from Cons.IH[OF this] s1 none[of "gpio_en_name j"] show ?thesis
      by (simp add: pin_bit_def)
  qed
qed

text \<open>
  C9, as amended. \<open>drive_gpio_range((high, low), value)\<close> visits the pins from \<open>low\<close>
  to \<open>high\<close> in order. When every pin of the range below the active pin count has its
  two signals, the call returns: each such pin \<open>i\<close> is driven with bit
  \<open>(value >> (i - low)) & 1\<close> and its enable with 1, and a debug record is logged for it;
  for each pin of the range at or above the active pin count nothing is driven and an
  error record is logged; no other signal changes. Otherwise the call raises the
  AttributeError of the first such pin's missing signal. With 44 active pins that have
  their signals, the range \<open>(3, 0)\<close> with value \<open>0b1010\<close> leaves pins 1 and 3 high and
  pins 0 and 2 low.
\<close>

theorem drive_gpio_range_drives_active_pins:
  "(case find (missing_signal env) [low..high] of
      None \<Rightarrow>
        (\<exists>env'. drive_gpio_range env (high, low) val = Inr env'
           \<and> (\<forall>i\<in>set [low..high]. i < active_gpios_num env \<longrightarrow>
                   dut env' (gpio_name i) = Some (Resolved (drop_bit (nat (i - low)) val AND 1))
                 \<and> dut env' (gpio_en_name i) = Some (Resolved 1))
           \<and> (\<forall>name. (\<forall>i\<in>set [low..high]. i < active_gpios_num env \<longrightarrow>
                           name \<noteq> gpio_en_name i \<and> name \<noteq> gpio_name i)
                   \<longrightarrow> dut env' name = dut env name)
           \<and> driven env' = driven env @
                 concat (map (\<lambda>i. [(gpio_en_name i, 1), (gpio_name i, drop_bit (nat (i - low)) val AND 1)])
                           (filter (\<lambda>i. i < active_gpios_num env) [low..high]))
           \<and> cocotb_log env' = cocotb_log env @
                 map (\<lambda>i. drive_record env i (drop_bit (nat (i - low)) val AND 1)) [low..high])
    | Some j \<Rightarrow>
        drive_gpio_range env (high, low) val
          = Inl (AttributeError (if dut env (gpio_en_name j) = None
                                 then gpio_en_name j else gpio_name j)))"
proof (cases "find (missing_signal env) [low..high]")
  case None
  from drive_gpio_loop_result[OF None, of low val] obtain env' where
    "drive_gpio_loop env low val [low..high] = Inr env'"
    and "\<forall>name. (\<forall>i\<in>set [low..high]. i < active_gpios_num env \<longrightarrow>
                           name \<noteq> gpio_en_name i \<and> name \<noteq> gpio_name i)
                   \<longrightarrow> dut env' name = dut env name"
    and "distinct [low..high] \<longrightarrow> (\<forall>i\<in>set [low..high]. i < active_gpios_num env \<longrightarrow>
                   dut env' (gpio_name i) = Some (Resolved (pin_bit low val i))
                 \<and> dut env' (gpio_en_name i) = Some (Resolved 1))"
    and "driven env' = driven env @
                 concat (map (\<lambda>i. [(gpio_en_name i, 1), (gpio_name i, pin_bit low val i)])
                           (filter (\<lambda>i. i < active_gpios_num env) [low..high]))"
    and "cocotb_log env' = cocotb_log env @ map (\<lambda>i. drive_record env i (pin_bit low val i)) [low..high]"
    by blast
  with None show ?thesis by (simp add: drive_gpio_range_def pin_bit_def)
next
  case (Some j)
  with drive_gpio_loop_missing[OF Some, of low val] show ?thesis
    by (simp add: drive_gpio_range_def)
qed

theorem drive_gpio_range_drives_active_pins_witness:
  "(\<exists>env'. drive_gpio_range (pins_env [0, 1, 2, 3] 44) (3, 0) 10 = Inr env'
     \<and> dut env' ''gpio0'' = Some (Resolved 0) \<and> dut env' ''gpio1'' = Some (Resolved 1)
     \<and> dut env' ''gpio2'' = Some (Resolved 0) \<and> dut env' ''gpio3'' = Some (Resolved 1)
     \<and> dut env' ''gpio0_en'' = Some (Resolved 1) \<and> dut env' ''gpio1_en'' = Some (Resolved 1)
     \<and> dut env' ''gpio2_en'' = Some (Resolved 1) \<and> dut env' ''gpio3_en'' = Some (Resolved 1)
     \<and> driven env' = [(''gpio0_en'', 1), (''gpio0'', 0), (''gpio1_en'', 1), (''gpio1'', 1),
                       (''gpio2_en'', 1), (''gpio2'', 0), (''gpio3_en'', 1), (''gpio3'', 1)])
   \<and> (\<exists>env'. drive_gpio_range (pins_env [0, 1, 2, 3] 3) (3, 0) 10 = Inr env'
     \<and> driven env' = [(''gpio0_en'', 1), (''gpio0'', 0), (''gpio1_en'', 1), (''gpio1'', 1),
                       (''gpio2_en'', 1), (''gpio2'', 0)]
     \<and> dut env' ''gpio3'' = Some Unresolved
     \<and> cocotb_log env' = [(DEBUG, ''[openframe] drive GPIO[0] = 0''),
                           (DEBUG, ''[openframe] drive GPIO[1] = 1''),
                           (DEBUG, ''[openframe] drive GPIO[2] = 0''),
                           (ERROR, ''[openframe] GPIO 3 is out of range (max 2)'')])
   \<and> drive_gpio_range (pins_env [0, 2, 3] 44) (3, 0) 10 = Inl (AttributeError ''gpio1_en'')"
proof -
  have names: "gpio_name 0 = ''gpio0''" "gpio_name 1 = ''gpio1''" "gpio_name 2 = ''gpio2''"
    "gpio_name 3 = ''gpio3''" "gpio_en_name 0 = ''gpio0_en''" "gpio_en_name 1 = ''gpio1_en''"
    "gpio_en_name 2 = ''gpio2_en''" "gpio_en_name 3 = ''gpio3_en''"
    by code_simp+
  have bits: "drop_bit (nat (0 - 0)) (10::int) AND 1 = 0" "drop_bit (nat (1 - 0)) (10::int) AND 1 = 1"
    "drop_bit (nat (2 - 0)) (10::int) AND 1 = 0" "drop_bit (nat (3 - 0)) (10::int) AND 1 = 1"
    by code_simp+
  have l: "[0..3] = [0, 1, 2, 3::int]" by code_simp
  have f1: "find (missing_signal (pins_env [0, 1, 2, 3] 44)) [0, 1, 2, 3] = None" by code_simp
  have a1: "active_gpios_num (pins_env [0, 1, 2, 3] 44) = 44" "driven (pins_env [0, 1, 2, 3] 44) = []"
    by (simp_all add: pins_env_def)
  from drive_gpio_range_drives_active_pins[where env = "pins_env [0, 1, 2, 3] 44" and low = 0 and high = 3 and val = 10]
  have w1: "\<exists>env'. drive_gpio_range (pins_env [0, 1, 2, 3] 44) (3, 0) 10 = Inr env'
     \<and> dut env' ''gpio0'' = Some (Resolved 0) \<and> dut env' ''gpio1'' = Some (Resolved 1)
     \<and> dut env' ''gpio2'' = Some (Resolved 0) \<and> dut env' ''gpio3'' = Some (Resolved 1)
     \<and> dut env' ''gpio0_en'' = Some (Resolved 1) \<and> dut env' ''gpio1_en'' = Some (Resolved 1)
     \<and> dut env' ''gpio2_en'' = Some (Resolved 1) \<and> dut env' ''gpio3_en'' = Some (Resolved 1)
     \<and> driven env' = [(''gpio0_en'', 1), (''gpio0'', 0), (''gpio1_en'', 1), (''gpio1'', 1),
                       (''gpio2_en'', 1), (''gpio2'', 0), (''gpio3_en'', 1), (''gpio3'', 1)]"
    unfolding l f1 a1 by (auto simp add: names bits)
  have f2: "find (missing_signal (pins_env [0, 1, 2, 3] 3)) [0, 1, 2, 3] = None" by code_simp
  have a2: "active_gpios_num (pins_env [0, 1, 2, 3] 3) = 3" "driven (pins_env [0, 1, 2, 3] 3) = []"
    "cocotb_log (pins_env [0, 1, 2, 3] 3) = []"
    by (simp_all add: pins_env_def)
  have recs: "drive_record (pins_env [0, 1, 2, 3] 3) 0 0 = (DEBUG, ''[openframe] drive GPIO[0] = 0'')"
    "drive_record (pins_env [0, 1, 2, 3] 3) 1 1 = (DEBUG, ''[openframe] drive GPIO[1] = 1'')"
    "drive_record (pins_env [0, 1, 2, 3] 3) 2 0 = (DEBUG, ''[openframe] drive GPIO[2] = 0'')"
    "drive_record (pins_env [0, 1, 2, 3] 3) 3 1 = (ERROR, ''[openframe] GPIO 3 is out of range (max 2)'')"
    by code_simp+
  have u: "dut (pins_env [0, 1, 2, 3] 3) ''gpio3'' = Some Unresolved" by code_simp
  have neq: "''gpio3'' \<noteq> ''gpio0_en''" "''gpio3'' \<noteq> ''gpio0''" "''gpio3'' \<noteq> ''gpio1_en''"
    "''gpio3'' \<noteq> ''gpio1''" "''gpio3'' \<noteq> ''gpio2_en''" "''gpio3'' \<noteq> ''gpio2''"
    by simp_all
  from drive_gpio_range_drives_active_pins[where env = "pins_env [0, 1, 2, 3] 3" and low = 0 and high = 3 and val = 10]
  obtain env' where r: "drive_gpio_range (pins_env [0, 1, 2, 3] 3) (3, 0) 10 = Inr env'"
    and fr: "\<forall>name. (\<forall>i\<in>set [0, 1, 2, 3]. i < (3::int) \<longrightarrow>
                           name \<noteq> gpio_en_name i \<and> name \<noteq> gpio_name i)
                   \<longrightarrow> dut env' name = dut (pins_env [0, 1, 2, 3] 3) name"
    and dr: "driven env' = [(''gpio0_en'', 1), (''gpio0'', 0), (''gpio1_en'', 1), (''gpio1'', 1),
                       (''gpio2_en'', 1), (''gpio2'', 0)]"
    and lg: "cocotb_log env' = [(DEBUG, ''[openframe] drive GPIO[0] = 0''),
                           (DEBUG, ''[openframe] drive GPIO[1] = 1''),
                           (DEBUG, ''[openframe] drive GPIO[2] = 0''),
                           (ERROR, ''[openframe] GPIO 3 is out of range (max 2)'')]"
    unfolding l f2 a2 by (auto simp add: names bits recs)
  have pre: "\<forall>i\<in>set [0, 1, 2, 3]. i < (3::int) \<longrightarrow>
                ''gpio3'' \<noteq> gpio_en_name i \<and> ''gpio3'' \<noteq> gpio_name i"
    by (simp add: names)
  have "dut env' ''gpio3'' = dut (pins_env [0, 1, 2, 3] 3) ''gpio3''"
    using fr pre by blast
  with u have g3: "dut env' ''gpio3'' = Some Unresolved" by simp
  have w2: "\<exists>env'. drive_gpio_range (pins_env [0, 1, 2, 3] 3) (3, 0) 10 = Inr env'
     \<and> driven env' = [(''gpio0_en'', 1), (''gpio0'', 0), (''gpio1_en'', 1), (''gpio1'', 1),
                       (''gpio2_en'', 1), (''gpio2'', 0)]
     \<and> dut env' ''gpio3'' = Some Unresolved
     \<and> cocotb_log env' = [(DEBUG, ''[openframe] drive GPIO[0] = 0''),
                           (DEBUG, ''[openframe] drive GPIO[1] = 1''),
                           (DEBUG, ''[openframe] drive GPIO[2] = 0''),
                           (ERROR, ''[openframe] GPIO 3 is out of range (max 2)'')]"
    using r dr g3 lg by blast
  have f3: "find (missing_signal (pins_env [0, 2, 3] 44)) [0, 1, 2, 3] = Some 1" by code_simp
  have m: "dut (pins_env [0, 2, 3] 44) ''gpio1_en'' = None" by code_simp
  from drive_gpio_range_drives_active_pins[where env = "pins_env [0, 2, 3] 44" and low = 0 and high = 3 and val = 10]
  have w3: "drive_gpio_range (pins_env [0, 2, 3] 44) (3, 0) 10 = Inl (AttributeError ''gpio1_en'')"
    unfolding l f3 by (simp add: m names)
  from w1 w2 w3 show ?thesis by blast
qed

text \<open>
  The claim as it was stated, for every \<open>i\<close> of the range, fails where the range
  leaves the active pins: with 44 pins, the range \<open>(44, 43)\<close> and value 3, whose bit for
  pin 44 is 1, pin 43 is driven and pin 44 is not.
\<close>

theorem drive_gpio_range_beyond_active_counterexample:
  "map_sum id driven (drive_gpio_range (pins_env [43, 44] 44) (44, 43) 3)
     = Inr [(''gpio43_en'', 1), (''gpio43'', 1)]
   \<and> map_sum id (\<lambda>env'. dut env' ''gpio44'') (drive_gpio_range (pins_env [43, 44] 44) (44, 43) 3)
     = Inr (Some Unresolved)
   \<and> drop_bit (nat (44 - 43)) (3::int) AND 1 = 1"
  by code_simp

section \<open>RunTest: the netlist hash cache, verified\<close>

lemma read_chunks_append: "read_chunks hash_func f = hash_func @ f"
proof (induction hash_func f rule: read_chunks.induct)
  case (1 hash_func f)
  show ?case
  proof (cases "take 8192 f = []")
    case True
    then have "f = []" by simp
    then show ?thesis by (simp add: read_chunks.simps[of hash_func "[]"])
  next
    case False
    from "1.IH"[OF refl False]
    have "read_chunks (hash_func @ take 8192 f) (drop 8192 f) = (hash_func @ take 8192 f) @ drop 8192 f" .
    with False show ?thesis by (simp add: read_chunks.simps[of hash_func f] Let_def)
  qed
qed

lemma open_read_readable: "readable files p \<Longrightarrow> open_read files p = Inr (content files p)"
  by (auto simp add: readable_def open_read_def content_def split: option.splits entry.splits)


lemma hash_files_readable:
  "\<forall>p\<in>set paths. readable files p \<Longrightarrow>
     hash_files hexdigest files hash_func paths
       = Inr (hexdigest (hash_func @ concat (map (content files) paths)))"
  by (induction paths arbitrary: hash_func) (simp_all add: open_read_readable read_chunks_append)


text \<open>
  C4. For every list of readable file paths and every permutation of it,
  \<open>calculate_netlist_hash\<close> returns the same digest for both: the digest of the
  contents taken in the sorted order of the paths, whatever the order of enumeration.
\<close>

theorem calculate_netlist_hash_order_independent:
  assumes "mset netlist' = mset netlist"
    and "\<forall>p\<in>set netlist. readable files p"
  shows "calculate_netlist_hash hexdigest files netlist' = calculate_netlist_hash hexdigest files netlist
       \<and> calculate_netlist_hash hexdigest files netlist
           = Inr (hexdigest (concat (map (content files) (sort netlist))))"
proof -
  have "sort netlist' = sort netlist"
    using assms(1) by (intro properties_for_sort) simp_all
  moreover have "\<forall>p\<in>set (sort netlist). readable files p"
    using assms(2) by simp
  ultimately show ?thesis
    by (simp add: calculate_netlist_hash_def hash_files_readable)
qed

theorem calculate_netlist_hash_order_independent_witness:
  "mset [''b.v'', ''a.v''] = mset [''a.v'', ''b.v'']
   \<and> readable two_files ''a.v'' \<and> readable two_files ''b.v''
   \<and> calculate_netlist_hash toy_hexdigest two_files [''b.v'', ''a.v'']
       = calculate_netlist_hash toy_hexdigest two_files [''a.v'', ''b.v'']
   \<and> calculate_netlist_hash toy_hexdigest two_files [''a.v'', ''b.v''] = Inr ''sha:module a;module b;''"
proof -
  have h1: "mset [''b.v'', ''a.v''] = mset [''a.v'', ''b.v'']" by simp
  have r: "readable two_files ''a.v''" "readable two_files ''b.v''"
    by (simp_all add: readable_def two_files_def)
  have h2: "\<forall>p\<in>set [''a.v'', ''b.v'']. readable two_files p" using r by simp
  have s: "sort [''a.v'', ''b.v''] = [''a.v'', ''b.v'']" by code_simp
  have c: "content two_files ''a.v'' = ''module a;''" "content two_files ''b.v'' = ''module b;''"
    by (simp_all add: content_def two_files_def)
  from calculate_netlist_hash_order_independent[OF h1 h2, of toy_hexdigest] h1 r
  show ?thesis by (simp add: s c toy_hexdigest_def)
qed

lemma is_same_hash_cases:
  "is_same_hash hexdigest hash_log files netlist =
     (case files hash_log of
        Some Directory \<Rightarrow> Inl (IsADirectoryError hash_log)
      | Some (File c r w) \<Rightarrow>
          if \<not> r then Inl (PermissionError hash_log)
          else (case calculate_netlist_hash hexdigest files netlist of
                  Inl e \<Rightarrow> Inl e
                | Inr digest \<Rightarrow>
                    if w then Inr (strip c = digest, files(hash_log \<mapsto> File digest True True))
                    else Inl (PermissionError hash_log))
      | absent \<Rightarrow>
          (case calculate_netlist_hash hexdigest files netlist of
             Inl e \<Rightarrow> Inl e
           | Inr digest \<Rightarrow>
               (case absent of
                  None \<Rightarrow> Inr (False, files(hash_log \<mapsto> File digest True True))
                | Some NoParent \<Rightarrow> Inl (FileNotFoundError hash_log)
                | _ \<Rightarrow> Inl (PermissionError hash_log))))"
  by (auto simp add: is_same_hash_def write_hash_def open_read_def open_write_def
        split: option.splits entry.splits sum.splits)

text \<open>
  C6, as amended. When nothing exists at the location of the hash log, \<open>is_same_hash\<close>
  never answers \<open>True\<close>. It returns \<open>False\<close>, leaving a new hash log with the fresh
  digest, when the hash computation raises nothing and the file can be created. When the
  hash computation raises, that exception leaves the call; when the directory of the hash
  log does not exist, the FileNotFoundError of the write does; when that directory may not
  be written, its PermissionError.
\<close>

theorem is_same_hash_without_hash_log:
  assumes "files hash_log = None \<or> files hash_log = Some NoParent
             \<or> files hash_log = Some ParentReadOnly"
  shows "(\<forall>files'. is_same_hash hexdigest hash_log files netlist \<noteq> Inr (True, files'))
       \<and> is_same_hash hexdigest hash_log files netlist
           = (case calculate_netlist_hash hexdigest files netlist of
                Inl e \<Rightarrow> Inl e
              | Inr digest \<Rightarrow>
                  (case files hash_log of
                     None \<Rightarrow> Inr (False, files(hash_log \<mapsto> File digest True True))
                   | Some NoParent \<Rightarrow> Inl (FileNotFoundError hash_log)
                   | _ \<Rightarrow> Inl (PermissionError hash_log)))"
  using assms by (auto simp add: is_same_hash_cases split: sum.splits)

theorem is_same_hash_without_hash_log_witness:
  "two_files ''hash.log'' = None
   \<and> is_same_hash toy_hexdigest ''hash.log'' two_files [''b.v'', ''a.v'']
       = Inr (False, two_files(''hash.log'' \<mapsto> File ''sha:module a;module b;'' True True))"
proof -
  have h: "two_files ''hash.log'' = None" by (simp add: two_files_def)
  have s: "sort [''b.v'', ''a.v''] = [''a.v'', ''b.v'']" by code_simp
  have c: "calculate_netlist_hash toy_hexdigest two_files [''b.v'', ''a.v''] = Inr ''sha:module a;module b;''"
    by (simp add: calculate_netlist_hash_def s two_files_def open_read_def read_chunks_append
          toy_hexdigest_def)
  from h is_same_hash_without_hash_log[where files = two_files and hash_log = "''hash.log''"
      and hexdigest = toy_hexdigest and netlist = "[''b.v'', ''a.v'']"] c
  show ?thesis by simp
qed

text \<open>
  The claim as it was stated, that without a hash log \<open>is_same_hash\<close> returns
  \<open>False\<close>, fails when the hash log is absent because its directory is: the read's
  FileNotFoundError is caught, the write's is not.
\<close>

theorem hash_log_directory_missing_counterexample:
  "isfile (two_files(''sim/compilation/hash.log'' \<mapsto> NoParent)) ''sim/compilation/hash.log'' = False
   \<and> open_read (two_files(''sim/compilation/hash.log'' \<mapsto> NoParent)) ''sim/compilation/hash.log''
       = Inl (FileNotFoundError ''sim/compilation/hash.log'')
   \<and> is_same_hash toy_hexdigest ''sim/compilation/hash.log''
         (two_files(''sim/compilation/hash.log'' \<mapsto> NoParent)) [''b.v'', ''a.v'']
       = Inl (FileNotFoundError ''sim/compilation/hash.log'')"
proof -
  let ?f = "two_files(''sim/compilation/hash.log'' \<mapsto> NoParent)"
  have s: "sort [''b.v'', ''a.v''] = [''a.v'', ''b.v'']" by code_simp
  have c: "calculate_netlist_hash toy_hexdigest ?f [''b.v'', ''a.v''] = Inr ''sha:module a;module b;''"
    by (simp add: calculate_netlist_hash_def s two_files_def open_read_def read_chunks_append
          toy_hexdigest_def)
  show ?thesis
    by (simp add: is_same_hash_cases c isfile_def open_read_def)
qed

text \<open>
  C7, as amended. A call of \<open>is_same_hash\<close> returns, with answer \<open>same\<close> and file system
  \<open>files'\<close>, exactly when the hash computation yields a digest and the hash log is either
  absent and can be created (the answer is then \<open>False\<close>) or a file that may be read and
  written (the answer is then whether its stripped content equals the digest). The file
  system afterwards differs from the one before in the hash log only, which holds exactly
  the fresh digest: the old content is replaced, not extended, whatever the answer. Every
  other call raises, and has written nothing.
\<close>

theorem is_same_hash_overwrites_hash_log:
  "is_same_hash hexdigest hash_log files netlist = Inr (same, files')
     \<longleftrightarrow> (\<exists>digest. calculate_netlist_hash hexdigest files netlist = Inr digest
            \<and> ((files hash_log = None \<and> same = False)
                 \<or> (\<exists>c. files hash_log = Some (File c True True) \<and> same = (strip c = digest)))
            \<and> files' = files(hash_log \<mapsto> File digest True True))"
  by (auto simp add: is_same_hash_cases split: option.splits entry.splits sum.splits if_splits)

theorem is_same_hash_overwrites_hash_log_witness:
  "is_same_hash toy_hexdigest ''hash.log''
       (two_files(''hash.log'' \<mapsto> File ''sha:module a;module b;'' True True)) [''b.v'', ''a.v'']
     = Inr (True, two_files(''hash.log'' \<mapsto> File ''sha:module a;module b;'' True True))
   \<and> is_same_hash toy_hexdigest ''hash.log''
       (two_files(''hash.log'' \<mapsto> File ''sha:stale'' True True)) [''b.v'', ''a.v'']
     = Inr (False, two_files(''hash.log'' \<mapsto> File ''sha:module a;module b;'' True True))
   \<and> is_same_hash toy_hexdigest ''hash.log'' two_files [''b.v'', ''a.v'']
     = Inr (False, two_files(''hash.log'' \<mapsto> File ''sha:module a;module b;'' True True))"
proof -
  let ?same = "two_files(''hash.log'' \<mapsto> File ''sha:module a;module b;'' True True)"
  let ?stale = "two_files(''hash.log'' \<mapsto> File ''sha:stale'' True True)"
  have s: "sort [''b.v'', ''a.v''] = [''a.v'', ''b.v'']" by code_simp
  have c0: "calculate_netlist_hash toy_hexdigest two_files [''b.v'', ''a.v''] = Inr ''sha:module a;module b;''"
    by (simp add: calculate_netlist_hash_def s two_files_def open_read_def read_chunks_append
          toy_hexdigest_def)
  have c1: "calculate_netlist_hash toy_hexdigest ?same [''b.v'', ''a.v''] = Inr ''sha:module a;module b;''"
    by (simp add: calculate_netlist_hash_def s two_files_def open_read_def read_chunks_append
          toy_hexdigest_def)
  have c2: "calculate_netlist_hash toy_hexdigest ?stale [''b.v'', ''a.v''] = Inr ''sha:module a;module b;''"
    by (simp add: calculate_netlist_hash_def s two_files_def open_read_def read_chunks_append
          toy_hexdigest_def)
  have st1: "strip ''sha:module a;module b;'' = ''sha:module a;module b;''" by code_simp
  have st2: "strip ''sha:stale'' = ''sha:stale''" by code_simp
  have n: "two_files ''hash.log'' = None" by (simp add: two_files_def)
  have r1: "is_same_hash toy_hexdigest ''hash.log'' ?same [''b.v'', ''a.v''] = Inr (True, ?same)"
    unfolding is_same_hash_overwrites_hash_log by (simp add: c1 st1)
  have r2: "is_same_hash toy_hexdigest ''hash.log'' ?stale [''b.v'', ''a.v''] = Inr (False, ?same)"
    unfolding is_same_hash_overwrites_hash_log by (simp add: c2 st2)
  have r3: "is_same_hash toy_hexdigest ''hash.log'' two_files [''b.v'', ''a.v''] = Inr (False, ?same)"
    unfolding is_same_hash_overwrites_hash_log by (simp add: c0 n)
  from r1 r2 r3 show ?thesis by blast
qed

text \<open>
  The claim as it was stated, that every call persists the digest, fails for a hash log
  that may be read but not written, and for one that may not be read: the call raises
  PermissionError.
\<close>

theorem protected_hash_log_counterexample:
  "is_same_hash toy_hexdigest ''hash.log''
       (two_files(''hash.log'' \<mapsto> File ''sha:stale'' True False)) [''b.v'', ''a.v'']
     = Inl (PermissionError ''hash.log'')
   \<and> is_same_hash toy_hexdigest ''hash.log''
       (two_files(''hash.log'' \<mapsto> File ''sha:stale'' False True)) [''b.v'', ''a.v'']
     = Inl (PermissionError ''hash.log'')"
proof -
  have s: "sort [''b.v'', ''a.v''] = [''a.v'', ''b.v'']" by code_simp
  have c: "calculate_netlist_hash toy_hexdigest (two_files(''hash.log'' \<mapsto> File ''sha:stale'' True False))
             [''b.v'', ''a.v''] = Inr ''sha:module a;module b;''"
    by (simp add: calculate_netlist_hash_def s two_files_def open_read_def read_chunks_append
          toy_hexdigest_def)
  show ?thesis by (simp add: is_same_hash_cases c)
qed




section \<open>RunTest: the compile lock, verified\<close>

lemma compilations_print [simp]: "compilations (print st msg) = compilations st"
  by (simp add: compilations_def print_def)

lemma lock_and_run_compilations:
  "\<not> is_compile run_ev \<Longrightarrow>
     compilations (snd (lock_and_run tool a artifact run_ev st)) = compilations st
   \<and> COMPILE_LOCK (snd (lock_and_run tool a artifact run_ev st)) = insert artifact (COMPILE_LOCK st)"
  by (simp add: lock_and_run_def Let_def run_tool_def compilations_def)

text \<open>
  C1. Once the path of a compiled artifact (\<open>sim.vvp\<close> or \<open>simv\<close> in the compilation
  directory) is in \<open>COMPILE_LOCK\<close>, an invocation of its track in which the artifact
  file exists and the compile flag is not set starts no compilation, whatever the file
  system holds, and so also when the fresh netlist hash differs from the stored one; the
  lock loses no entry, so this holds for every later invocation of the run.
\<close>

theorem compile_lock_prevents_recompilation:
  "(test_compilation_dir t @ ''/sim.vvp'' \<in> COMPILE_LOCK st
      \<and> isfile (fs st) (test_compilation_dir t @ ''/sim.vvp'') \<and> \<not> args_compile a
    \<longrightarrow> compilations (snd (runTest_iverilog hexdigest tool a t st)) = compilations st
      \<and> COMPILE_LOCK st \<subseteq> COMPILE_LOCK (snd (runTest_iverilog hexdigest tool a t st)))
   \<and> (test_compilation_dir t @ ''/simv'' \<in> COMPILE_LOCK st
      \<and> isfile (fs st) (test_compilation_dir t @ ''/simv'') \<and> \<not> args_compile a
    \<longrightarrow> compilations (snd (runTest_vcs hexdigest tool a t st)) = compilations st
      \<and> COMPILE_LOCK st \<subseteq> COMPILE_LOCK (snd (runTest_vcs hexdigest tool a t st)))"
proof (intro conjI impI)
  assume h: "test_compilation_dir t @ ''/sim.vvp'' \<in> COMPILE_LOCK st
      \<and> isfile (fs st) (test_compilation_dir t @ ''/sim.vvp'') \<and> \<not> args_compile a"
  let ?r = "runTest_iverilog hexdigest tool a t st"
  have "compilations (snd ?r) = compilations st \<and> COMPILE_LOCK st \<subseteq> COMPILE_LOCK (snd ?r)"
  proof (cases "test_sim t = ''GL_SDF''")
    case True
    then show ?thesis by (simp add: runTest_iverilog_def Let_def)
  next
    case False
    show ?thesis
    proof (cases "is_same_hash hexdigest (test_hash_log t) (fs st) (test_netlist t)")
      case (Inl e)
      with False h show ?thesis by (simp add: runTest_iverilog_def Let_def)
    next
      case (Inr r)
      obtain same fs' where r: "r = (same, fs')" by (cases r)
      have c: "compilations (st\<lparr>fs := fs'\<rparr>) = compilations st"
        by (simp add: compilations_def)
      from False h Inr r have "?r = lock_and_run tool a (test_compilation_dir t @ ''/sim.vvp'')
                                      IverilogRun (st\<lparr>fs := fs'\<rparr>)"
        by (simp add: runTest_iverilog_def Let_def)
      with lock_and_run_compilations[of IverilogRun tool a "test_compilation_dir t @ ''/sim.vvp''"
             "st\<lparr>fs := fs'\<rparr>"] c
      show ?thesis by auto
    qed
  qed
  then show "compilations (snd ?r) = compilations st"
    and "COMPILE_LOCK st \<subseteq> COMPILE_LOCK (snd ?r)" by simp_all
next
  assume h: "test_compilation_dir t @ ''/simv'' \<in> COMPILE_LOCK st
      \<and> isfile (fs st) (test_compilation_dir t @ ''/simv'') \<and> \<not> args_compile a"
  let ?r = "runTest_vcs hexdigest tool a t st"
  have "compilations (snd ?r) = compilations st \<and> COMPILE_LOCK st \<subseteq> COMPILE_LOCK (snd ?r)"
  proof (cases "is_same_hash hexdigest (test_hash_log t) (fs st) (test_netlist t)")
    case (Inl e)
    with h show ?thesis by (simp add: runTest_vcs_def Let_def)
  next
    case (Inr r)
    obtain same fs' where r: "r = (same, fs')" by (cases r)
    have c: "compilations (st\<lparr>fs := fs'\<rparr>) = compilations st"
      by (simp add: compilations_def)
    from h Inr r have "?r = lock_and_run tool a (test_compilation_dir t @ ''/simv'')
                                    VcsRun (st\<lparr>fs := fs'\<rparr>)"
      by (simp add: runTest_vcs_def Let_def)
    with lock_and_run_compilations[of VcsRun tool a "test_compilation_dir t @ ''/simv''"
           "st\<lparr>fs := fs'\<rparr>"] c
    show ?thesis by auto
  qed
  then show "compilations (snd ?r) = compilations st"
    and "COMPILE_LOCK st \<subseteq> COMPILE_LOCK (snd ?r)" by simp_all
qed

theorem compile_lock_prevents_recompilation_witness:
  "test_compilation_dir rtl_test @ ''/sim.vvp'' \<in> COMPILE_LOCK locked_state
   \<and> isfile (fs locked_state) (test_compilation_dir rtl_test @ ''/sim.vvp'')
   \<and> test_compilation_dir rtl_test @ ''/simv'' \<in> COMPILE_LOCK locked_state
   \<and> isfile (fs locked_state) (test_compilation_dir rtl_test @ ''/simv'')
   \<and> \<not> args_compile plain_args
   \<and> is_same_hash toy_hexdigest (test_hash_log rtl_test) (fs locked_state) (test_netlist rtl_test)
       = Inr (False, compiled_files(''hash.log'' \<mapsto> File ''sha:module a;module b;'' True True))
   \<and> compilations (snd (runTest_iverilog toy_hexdigest no_effect plain_args rtl_test locked_state)) = []
   \<and> compilations (snd (runTest_vcs toy_hexdigest no_effect plain_args rtl_test locked_state)) = []
   \<and> compilations (snd (runTest_iverilog toy_hexdigest no_effect plain_args rtl_test
                          (locked_state\<lparr>COMPILE_LOCK := {}\<rparr>))) = [IverilogCompile]
   \<and> compilations (snd (runTest_vcs toy_hexdigest no_effect plain_args rtl_test
                          (locked_state\<lparr>COMPILE_LOCK := {}\<rparr>))) = [VcsCompile]"
proof -
  have f: "compiled_files ''sim/compilation/sim.vvp'' = Some (File ''vvp'' True True)"
    "compiled_files ''sim/compilation/simv'' = Some (File ''simv'' True True)"
    "compiled_files ''hash.log'' = Some (File ''sha:stale'' True True)"
    "compiled_files ''a.v'' = Some (File ''module a;'' True True)"
    "compiled_files ''b.v'' = Some (File ''module b;'' True True)"
    by (simp_all add: compiled_files_def two_files_def)
  have h1: "test_compilation_dir rtl_test @ ''/sim.vvp'' \<in> COMPILE_LOCK locked_state
      \<and> isfile (fs locked_state) (test_compilation_dir rtl_test @ ''/sim.vvp'')
      \<and> \<not> args_compile plain_args"
    by (simp add: rtl_test_def locked_state_def plain_args_def isfile_def f)
  have h2: "test_compilation_dir rtl_test @ ''/simv'' \<in> COMPILE_LOCK locked_state
      \<and> isfile (fs locked_state) (test_compilation_dir rtl_test @ ''/simv'')
      \<and> \<not> args_compile plain_args"
    by (simp add: rtl_test_def locked_state_def plain_args_def isfile_def f)
  have c0: "compilations locked_state = []" by (simp add: compilations_def locked_state_def)
  from compile_lock_prevents_recompilation[of rtl_test locked_state plain_args toy_hexdigest no_effect]
    h1 h2 c0
  have locked: "compilations (snd (runTest_iverilog toy_hexdigest no_effect plain_args rtl_test locked_state)) = []"
    "compilations (snd (runTest_vcs toy_hexdigest no_effect plain_args rtl_test locked_state)) = []"
    by simp_all
  have s: "sort [''b.v'', ''a.v''] = [''a.v'', ''b.v'']" by code_simp
  have c: "calculate_netlist_hash toy_hexdigest compiled_files [''b.v'', ''a.v'']
             = Inr ''sha:module a;module b;''"
    by (simp add: calculate_netlist_hash_def s f open_read_def read_chunks_append toy_hexdigest_def)
  have st: "strip ''sha:stale'' = ''sha:stale''" by code_simp
  have same: "is_same_hash toy_hexdigest ''hash.log'' compiled_files [''b.v'', ''a.v'']
       = Inr (False, compiled_files(''hash.log'' \<mapsto> File ''sha:module a;module b;'' True True))"
    by (simp add: is_same_hash_cases c f st)
  have unlocked: "compilations (snd (runTest_iverilog toy_hexdigest no_effect plain_args rtl_test
                          (locked_state\<lparr>COMPILE_LOCK := {}\<rparr>))) = [IverilogCompile]"
    "compilations (snd (runTest_vcs toy_hexdigest no_effect plain_args rtl_test
                          (locked_state\<lparr>COMPILE_LOCK := {}\<rparr>))) = [VcsCompile]"
    by (simp_all add: runTest_iverilog_def runTest_vcs_def Let_def rtl_test_def locked_state_def
          plain_args_def isfile_def f same lock_and_run_def run_tool_def iverilog_compile_def
          vcs_compile_def remove_if_isfile_def print_def compilations_def)
  have same': "is_same_hash toy_hexdigest (test_hash_log rtl_test) (fs locked_state) (test_netlist rtl_test)
       = Inr (False, compiled_files(''hash.log'' \<mapsto> File ''sha:module a;module b;'' True True))"
    using same by (simp add: rtl_test_def locked_state_def)
  from h1 h2 locked unlocked same' show ?thesis by blast
qed

section \<open>RunTest: the command runner, verified\<close>

lemma startswith_prefix: "startswith s p = prefix p s"
  by (induction s p rule: startswith.induct) auto

lemma progressive_sym: "progressive a b = progressive b a"
  by (auto simp add: progressive_def)

lemma is_progressive_duplicate_iff:
  assumes "a \<noteq> []" and "b \<noteq> []"
  shows "is_progressive_duplicate a (Some b) = progressive b a"
proof (cases "length a < length b")
  case True
  then have "\<not> (prefix b a \<and> length b + 2 < length a)" by simp
  with True assms show ?thesis
    by (auto simp add: is_progressive_duplicate_def startswith_prefix progressive_def)
next
  case False
  then have "\<not> (prefix a b \<and> length a + 2 < length b)" by simp
  with False assms show ?thesis
    by (auto simp add: is_progressive_duplicate_def startswith_prefix progressive_def)
qed

lemma clean_Nil: "clean [] = []"
  by (simp add: clean_def rstrip_def)

text \<open>A line that is empty or noise once cleaned leaves the buffer and the console alone;
  so does every line when the console is off.\<close>

lemma handle_line_invisible:
  assumes "quiet \<or> clean out = [] \<or> is_noise (clean out)"
  shows "buffered_line (handle_line has_file quiet r out) = buffered_line r"
    and "console (handle_line has_file quiet r out) = console r"
  using assms by (auto simp add: handle_line_def Let_def)

text \<open>A line that is neither, with the console on, meets the buffer.\<close>

lemma handle_line_visible:
  assumes "clean out \<noteq> []" and "\<not> is_noise (clean out)"
  shows "buffered_line (handle_line has_file False r out) =
           (case buffered_line r of
              None \<Rightarrow> Some (clean out)
            | Some b \<Rightarrow>
                if is_progressive_duplicate (clean out) (Some b)
                then (if length (clean out) > length b then Some (clean out) else Some b)
                else Some (clean out))"
    and "console (handle_line has_file False r out) =
           (case buffered_line r of
              None \<Rightarrow> console r
            | Some b \<Rightarrow>
                if is_progressive_duplicate (clean out) (Some b) then console r
                else console r @ [b])"
proof -
  have ne: "out \<noteq> []" using assms(1) clean_Nil by auto
  show "buffered_line (handle_line has_file False r out) =
           (case buffered_line r of
              None \<Rightarrow> Some (clean out)
            | Some b \<Rightarrow>
                if is_progressive_duplicate (clean out) (Some b)
                then (if length (clean out) > length b then Some (clean out) else Some b)
                else Some (clean out))"
    using assms ne
    by (simp add: handle_line_def Let_def flush_buffer_def is_progressive_duplicate_def
          split: option.splits)
  show "console (handle_line has_file False r out) =
           (case buffered_line r of
              None \<Rightarrow> console r
            | Some b \<Rightarrow>
                if is_progressive_duplicate (clean out) (Some b) then console r
                else console r @ [b])"
    using assms ne
    by (simp add: handle_line_def Let_def flush_buffer_def is_progressive_duplicate_def
          split: option.splits)
qed

lemma visible_Cons:
  "visible (out # lines)
     = (if clean out \<noteq> [] \<and> \<not> is_noise (clean out) then clean out # visible lines
        else visible lines)"
  by (simp add: visible_def)

text \<open>The read loop from any state of the runner whose held line is not empty: what is
  on the console, then the collapse of the held line and the visible lines to come.\<close>

lemma drain_collapse:
  assumes "\<forall>h. buffered_line r = Some h \<longrightarrow> h \<noteq> []"
  shows "console (flush_buffer (foldl (handle_line hf False) r lines))
           = console r @ collapse ((case buffered_line r of None \<Rightarrow> [] | Some h \<Rightarrow> [h])
                                   @ visible lines)"
  using assms
proof (induction lines arbitrary: r)
  case Nil
  then show ?case
    by (cases "buffered_line r") (simp_all add: flush_buffer_def visible_def)
next
  case (Cons out lines)
  let ?r' = "handle_line hf False r out"
  show ?case
  proof (cases "clean out \<noteq> [] \<and> \<not> is_noise (clean out)")
    case False
    then have inv: "clean out = [] \<or> is_noise (clean out)" by blast
    have b: "buffered_line ?r' = buffered_line r" and c: "console ?r' = console r"
      using handle_line_invisible[of False out hf r] inv by simp_all
    have v: "visible (out # lines) = visible lines" using inv by (auto simp add: visible_Cons)
    have "\<forall>h. buffered_line ?r' = Some h \<longrightarrow> h \<noteq> []" using b Cons.prems by simp
    from Cons.IH[OF this] show ?thesis unfolding v b c by simp
  next
    case True
    then have ne: "clean out \<noteq> []" and nn: "\<not> is_noise (clean out)" by simp_all
    note hb = handle_line_visible(1)[OF ne nn, of hf r]
    note hc = handle_line_visible(2)[OF ne nn, of hf r]
    have v: "visible (out # lines) = clean out # visible lines"
      using ne nn by (simp add: visible_Cons)
    show ?thesis
    proof (cases "buffered_line r")
      case None
      then have b: "buffered_line ?r' = Some (clean out)" and c: "console ?r' = console r"
        using hb hc by simp_all
      have "\<forall>h. buffered_line ?r' = Some h \<longrightarrow> h \<noteq> []" using b ne by simp
      from Cons.IH[OF this] show ?thesis unfolding v b c None by simp
    next
      case (Some h)
      then have hne: "h \<noteq> []" using Cons.prems by simp
      have ipd: "is_progressive_duplicate (clean out) (Some h) = progressive h (clean out)"
        using is_progressive_duplicate_iff[OF ne hne] .
      show ?thesis
      proof (cases "progressive h (clean out)")
        case p: True
        let ?k = "if length (clean out) > length h then clean out else h"
        have b: "buffered_line ?r' = Some ?k" and c: "console ?r' = console r"
          using hb hc Some ipd p by simp_all
        have "\<forall>x. buffered_line ?r' = Some x \<longrightarrow> x \<noteq> []" using b ne hne by simp
        from Cons.IH[OF this]
        have "console (flush_buffer (foldl (handle_line hf False) ?r' lines))
                = console r @ collapse (?k # visible lines)"
          unfolding b c by simp
        moreover have "collapse (h # clean out # visible lines) = collapse (?k # visible lines)"
          using p by simp
        ultimately show ?thesis unfolding v Some by simp
      next
        case np: False
        have b: "buffered_line ?r' = Some (clean out)" and c: "console ?r' = console r @ [h]"
          using hb hc Some ipd np by simp_all
        have "\<forall>x. buffered_line ?r' = Some x \<longrightarrow> x \<noteq> []" using b ne by simp
        from Cons.IH[OF this]
        have "console (flush_buffer (foldl (handle_line hf False) ?r' lines))
                = (console r @ [h]) @ collapse (clean out # visible lines)"
          unfolding b c by simp
        moreover have "collapse (h # clean out # visible lines)
                         = h # collapse (clean out # visible lines)"
          using np by simp
        ultimately show ?thesis unfolding v Some by simp
      qed
    qed
  qed
qed

lemma drain_quiet:
  "buffered_line (foldl (handle_line hf True) r lines) = buffered_line r
   \<and> console (foldl (handle_line hf True) r lines) = console r"
proof (induction lines arbitrary: r)
  case Nil
  then show ?case by simp
next
  case (Cons out lines)
  from Cons.IH[of "handle_line hf True r out"] handle_line_invisible[of True out hf r]
  show ?case by simp
qed

lemma console_run:
  "console (snd (run_command_write_to_file expandvars proc cmd file quiet))
     = console (flush_buffer (foldl (handle_line (file \<noteq> None) quiet)
          \<lparr>buffered_line = None, console = [],
            log_file = (case file of None \<Rightarrow> [] | Some _ \<Rightarrow> log_header expandvars cmd)\<rparr>
          (stdout_lines proc)))"
  by (simp add: run_command_write_to_file_def Let_def)

text \<open>
  C2, as amended. With the console off nothing is printed. With it on, the console shows
  the collapse of the lines that are neither empty nor noise once cleaned, in their order;
  empty and noise lines in between have no effect. The first such line is held; a next line
  merges with the held one when one of the two is a prefix of the other and the longer has
  more than two characters beyond it, and the longer is held on; any other next line, also
  a strict prefix or extension that differs by one or two characters, sends the held line
  to the console and is held in its place; the line held at the end is printed.
  \<open>Compiling\<close> then \<open>Compiling foo.v\<close> prints the latter only, \<open>Compiling\<close> then
  \<open>Linking\<close> prints both in order.
\<close>

theorem console_is_collapse_of_visible_lines:
  "console (snd (run_command_write_to_file expandvars proc cmd file quiet))
     = (if quiet then [] else collapse (visible (stdout_lines proc)))"
proof (cases quiet)
  case True
  let ?r0 = "\<lparr>buffered_line = None, console = [],
              log_file = (case file of None \<Rightarrow> [] | Some _ \<Rightarrow> log_header expandvars cmd)\<rparr>"
  from drain_quiet[of "file \<noteq> None" ?r0 "stdout_lines proc"]
  have "console (flush_buffer (foldl (handle_line (file \<noteq> None) True) ?r0 (stdout_lines proc))) = []"
    by (simp add: flush_buffer_def)
  with True show ?thesis by (simp add: console_run)
next
  case False
  let ?r0 = "\<lparr>buffered_line = None, console = [],
              log_file = (case file of None \<Rightarrow> [] | Some _ \<Rightarrow> log_header expandvars cmd)\<rparr>"
  have "\<forall>h. buffered_line ?r0 = Some h \<longrightarrow> h \<noteq> []" by simp
  from drain_collapse[OF this, of "file \<noteq> None" "stdout_lines proc"] False
  show ?thesis by (simp add: console_run)
qed

theorem console_is_collapse_of_visible_lines_witness:
  "console (snd (run_command_write_to_file id (child [''Compiling'', ''Compiling foo.v''])
                   ''make'' None False)) = [''Compiling foo.v'']
   \<and> console (snd (run_command_write_to_file id (child [''Compiling'', ''Linking''])
                   ''make'' None False)) = [''Compiling'', ''Linking'']
   \<and> console (snd (run_command_write_to_file id
                   (child [''Compiling'', ''docker scout quickview'', [], ''Compiling foo.v''])
                   ''make'' (Some ''compilation.log'') False)) = [''Compiling foo.v'']
   \<and> console (snd (run_command_write_to_file id (child [''Co'', ''Compi'', ''Compiling''])
                   ''make'' None False)) = [''Compiling'']
   \<and> console (snd (run_command_write_to_file id (child [''Compiling'', ''Linking'', ''Linking foo.v''])
                   ''make'' None False)) = [''Compiling'', ''Linking foo.v'']
   \<and> console (snd (run_command_write_to_file id (child [''Compiling'', ''Linking''])
                   ''make'' None True)) = []"
proof -
  have e1: "collapse (visible (stdout_lines (child [''Compiling'', ''Compiling foo.v''])))
              = [''Compiling foo.v'']" by code_simp
  have e2: "collapse (visible (stdout_lines (child [''Compiling'', ''Linking''])))
              = [''Compiling'', ''Linking'']" by code_simp
  have e3: "collapse (visible (stdout_lines
              (child [''Compiling'', ''docker scout quickview'', [], ''Compiling foo.v''])))
              = [''Compiling foo.v'']" by code_simp
  have e4: "collapse (visible (stdout_lines (child [''Co'', ''Compi'', ''Compiling''])))
              = [''Compiling'']" by code_simp
  have e5: "collapse (visible (stdout_lines (child [''Compiling'', ''Linking'', ''Linking foo.v''])))
              = [''Compiling'', ''Linking foo.v'']" by code_simp
  show ?thesis
    unfolding console_is_collapse_of_visible_lines e1 e2 e3 e4 e5 by simp
qed

text \<open>
  The claim as it was stated fails twice. \<open>Compiling\<close> is a strict prefix of
  \<open>Compiling f\<close>, two characters longer, and both are printed. And after
  \<open>Compiling foo.v\<close> the shorter \<open>Compiling\<close> is dropped, so of the consecutive lines
  \<open>Compiling\<close> and \<open>Linking\<close>, neither a prefix of the other, only the second is
  printed.
\<close>

theorem short_extension_counterexample:
  "strict_prefix ''Compiling'' ''Compiling f''
   \<and> \<not> is_noise ''Compiling'' \<and> \<not> is_noise ''Compiling f''
   \<and> console (snd (run_command_write_to_file id (child [''Compiling'', ''Compiling f''])
                   ''make'' None False)) = [''Compiling'', ''Compiling f'']
   \<and> \<not> is_noise ''Compiling foo.v'' \<and> \<not> is_noise ''Linking''
   \<and> \<not> prefix ''Compiling'' ''Linking'' \<and> \<not> prefix ''Linking'' ''Compiling''
   \<and> console (snd (run_command_write_to_file id (child [''Compiling foo.v'', ''Compiling'', ''Linking''])
                   ''make'' None False)) = [''Compiling foo.v'', ''Linking'']"
  by code_simp

text \<open>Whatever the console shows passed the noise filter; whatever is in the buffer did.\<close>

lemma handle_line_no_noise:
  assumes "\<forall>x\<in>set (console r). \<not> is_noise x" and "\<forall>b. buffered_line r = Some b \<longrightarrow> \<not> is_noise b"
  shows "(\<forall>x\<in>set (console (handle_line hf quiet r out)). \<not> is_noise x)
       \<and> (\<forall>b. buffered_line (handle_line hf quiet r out) = Some b \<longrightarrow> \<not> is_noise b)"
  using assms
  by (auto simp add: handle_line_def Let_def flush_buffer_def split: option.splits)

lemma foldl_handle_line_no_noise:
  assumes "\<forall>x\<in>set (console r). \<not> is_noise x" and "\<forall>b. buffered_line r = Some b \<longrightarrow> \<not> is_noise b"
  shows "(\<forall>x\<in>set (console (foldl (handle_line hf quiet) r lines)). \<not> is_noise x)
       \<and> (\<forall>b. buffered_line (foldl (handle_line hf quiet) r lines) = Some b \<longrightarrow> \<not> is_noise b)"
  using assms
proof (induction lines arbitrary: r)
  case Nil
  then show ?case by simp
next
  case (Cons out lines)
  from handle_line_no_noise[OF Cons.prems, of hf quiet out]
  have "\<forall>x\<in>set (console (handle_line hf quiet r out)). \<not> is_noise x"
    and "\<forall>b. buffered_line (handle_line hf quiet r out) = Some b \<longrightarrow> \<not> is_noise b"
    by blast+
  from Cons.IH[OF this] show ?case by simp
qed

lemma console_never_noise:
  "x \<in> set (console (snd (run_command_write_to_file expandvars proc cmd file quiet)))
     \<Longrightarrow> \<not> is_noise x"
proof -
  let ?r0 = "\<lparr>buffered_line = None, console = [],
              log_file = (case file of None \<Rightarrow> [] | Some _ \<Rightarrow> log_header expandvars cmd)\<rparr>"
  let ?r1 = "foldl (handle_line (file \<noteq> None) quiet) ?r0 (stdout_lines proc)"
  assume x: "x \<in> set (console (snd (run_command_write_to_file expandvars proc cmd file quiet)))"
  have "\<forall>x\<in>set (console ?r0). \<not> is_noise x" "\<forall>b. buffered_line ?r0 = Some b \<longrightarrow> \<not> is_noise b"
    by simp_all
  from foldl_handle_line_no_noise[OF this, of "file \<noteq> None" quiet "stdout_lines proc"]
  have inv: "\<forall>x\<in>set (console ?r1). \<not> is_noise x" "\<forall>b. buffered_line ?r1 = Some b \<longrightarrow> \<not> is_noise b"
    by blast+
  from x have "x \<in> set (console (flush_buffer ?r1))" by (simp add: console_run)
  then have "x \<in> set (console ?r1) \<or> buffered_line ?r1 = Some x"
    by (auto simp add: flush_buffer_def split: option.splits)
  with inv show "\<not> is_noise x" by blast
qed

lemma log_file_handle_line:
  "log_file (handle_line hf quiet r out)
     = log_file r @ (if hf \<and> clean out \<noteq> [] then [clean out @ [CHR 0x0A]] else [])"
  by (auto simp add: handle_line_def Let_def flush_buffer_def clean_Nil split: option.splits)

lemma log_file_foldl:
  "log_file (foldl (handle_line True quiet) r lines)
     = log_file r @ map (\<lambda>l. clean l @ [CHR 0x0A]) (filter (\<lambda>l. clean l \<noteq> []) lines)"
  by (induction lines arbitrary: r) (simp_all add: log_file_handle_line)

lemma log_file_flush_buffer: "log_file (flush_buffer r) = log_file r"
  by (simp add: flush_buffer_def split: option.splits)

text \<open>
  C5, as amended. A line of the output whose stripped form matches a noise pattern is
  never printed to the console, at any verbosity. With a log file, the log receives after
  its header exactly the stripped forms of the lines that are not empty once stripped, in
  order, each with a newline: a noise line that is not empty is logged, an empty one
  (which the pattern \<open>^\s*$\<close> counts as noise) is not.
\<close>

theorem noise_is_logged_but_never_printed:
  assumes "out \<in> set (stdout_lines proc)" and "is_noise (clean out)"
  shows "clean out \<notin> set (console (snd (run_command_write_to_file expandvars proc cmd file quiet)))
       \<and> log_file (snd (run_command_write_to_file expandvars proc cmd (Some path) quiet))
           = log_header expandvars cmd
             @ map (\<lambda>l. clean l @ [CHR 0x0A]) (filter (\<lambda>l. clean l \<noteq> []) (stdout_lines proc))
       \<and> (if clean out \<noteq> []
          then clean out @ [CHR 0x0A]
                 \<in> set (log_file (snd (run_command_write_to_file expandvars proc cmd (Some path) quiet)))
          else [CHR 0x0A]
                 \<notin> set (drop 3 (log_file (snd (run_command_write_to_file expandvars proc cmd (Some path) quiet)))))"
proof -
  have c: "clean out \<notin> set (console (snd (run_command_write_to_file expandvars proc cmd file quiet)))"
    using console_never_noise assms(2) by blast
  have l: "log_file (snd (run_command_write_to_file expandvars proc cmd (Some path) quiet))
           = log_header expandvars cmd
             @ map (\<lambda>l. clean l @ [CHR 0x0A]) (filter (\<lambda>l. clean l \<noteq> []) (stdout_lines proc))"
    by (simp add: run_command_write_to_file_def Let_def log_file_flush_buffer log_file_foldl)
  have len: "length (log_header expandvars cmd) = 3" by (simp add: log_header_def)
  have m: "clean out \<noteq> [] \<Longrightarrow> clean out @ [CHR 0x0A]
             \<in> set (map (\<lambda>l. clean l @ [CHR 0x0A]) (filter (\<lambda>l. clean l \<noteq> []) (stdout_lines proc)))"
    using assms(1) by auto
  have e: "[CHR 0x0A]
             \<notin> set (map (\<lambda>l. clean l @ [CHR 0x0A]) (filter (\<lambda>l. clean l \<noteq> []) (stdout_lines proc)))"
    by auto
  from c l m e len show ?thesis by simp
qed

theorem noise_is_logged_but_never_printed_witness:
  "is_noise (clean (''  warnings.warn(DeprecationWarning)  '' @ [CHR 0x0A]))
   \<and> console (snd (run_command_write_to_file id
        (child [''Compiling'', ''  warnings.warn(DeprecationWarning)  '', ''Linking''])
        ''make'' (Some ''compilation.log'') False)) = [''Compiling'', ''Linking'']
   \<and> log_file (snd (run_command_write_to_file id
        (child [''Compiling'', ''  warnings.warn(DeprecationWarning)  '', ''Linking''])
        ''make'' (Some ''compilation.log'') False))
      = log_header id ''make''
        @ [''Compiling'' @ [CHR 0x0A], ''  warnings.warn(DeprecationWarning)'' @ [CHR 0x0A],
           ''Linking'' @ [CHR 0x0A]]"
proof -
  let ?out = "''  warnings.warn(DeprecationWarning)  '' @ [CHR 0x0A]"
  let ?p = "child [''Compiling'', ''  warnings.warn(DeprecationWarning)  '', ''Linking'']"
  have h1: "?out \<in> set (stdout_lines ?p)" by (simp add: child_def)
  have h2: "is_noise (clean ?out)" by code_simp
  have c: "clean (''Compiling'' @ [CHR 0x0A]) = ''Compiling''"
    "clean ?out = ''  warnings.warn(DeprecationWarning)''"
    "clean (''Linking'' @ [CHR 0x0A]) = ''Linking''"
    by code_simp+
  note c' = c[simplified]
  have con: "console (snd (run_command_write_to_file id ?p ''make'' (Some ''compilation.log'') False))
               = [''Compiling'', ''Linking'']"
    by code_simp
  from noise_is_logged_but_never_printed[OF h1 h2, of id "''make''" "Some ''compilation.log''" False
         "''compilation.log''"]
  have "log_file (snd (run_command_write_to_file id ?p ''make'' (Some ''compilation.log'') False))
      = log_header id ''make''
        @ [''Compiling'' @ [CHR 0x0A], ''  warnings.warn(DeprecationWarning)'' @ [CHR 0x0A],
           ''Linking'' @ [CHR 0x0A]]"
    by (simp add: child_def c')
  with h2 con show ?thesis by blast
qed

text \<open>
  The claim as it was stated, that every noise line is appended to the log file, fails for
  the empty line: the log holds the header and the two lines around it.
\<close>

theorem empty_line_not_logged_counterexample:
  "clean [CHR 0x0A] = [] \<and> is_noise (clean [CHR 0x0A])
   \<and> log_file (snd (run_command_write_to_file id (child [''Compiling'', [], ''Linking''])
                    ''make'' (Some ''compilation.log'') False))
      = log_header id ''make'' @ [''Compiling'' @ [CHR 0x0A], ''Linking'' @ [CHR 0x0A]]"
  by code_simp

end
